theory Spec2Isabelle
  imports Main "HOL-Library.Word"
begin

unbundle bit_operations_syntax

section \<open>Data model\<close>

text \<open>
  The Go program works on \<open>uint32\<close> compact difficulties, \<open>int32\<close> heights, \<open>int64\<close>
  seconds and \<open>big.Int\<close> targets. Fixed-width values are words (arithmetic wraps, \<open>sint\<close>
  reads the two's complement value); a \<open>big.Int\<close> is an \<open>int\<close>.

  A run-time panic of the Go program is a value of \<open>fault\<close>; a function that can panic
  returns \<open>fault + 'a\<close> with \<open>Inl\<close> for the panic. \<open>Fatal\<close> is the driver's \<open>log.Fatal\<close>.
\<close>

datatype fault = IndexOutOfRange | SliceOutOfRange | DivisionByZero | Fatal string

text \<open>
  \<open>time.Time\<close> as far as the program observes it: the value of \<open>Unix()\<close> and the
  nanosecond part.
\<close>

record gotime =
  unix :: "64 word"
  nanos :: "32 word"

text \<open>\<open>wire.BlockHeader\<close>, reduced to the two fields the program reads.\<close>

record BlockHeader =
  Timestamp :: gotime
  Bits :: "32 word"

text \<open>
  \<open>Params\<close>, reduced to the fields \<open>calcDiffAdjustKGW\<close> reads. \<open>TargetTimePerBlock\<close> holds
  the only value the program takes from that duration, \<open>int64(p.TargetTimePerBlock.Seconds())\<close>.
\<close>

record Params =
  PowLimit :: int
  PowLimitBits :: "32 word"
  TargetTimePerBlock :: "64 word"

definition VertcoinParams :: Params where
  "VertcoinParams =
     \<lparr>PowLimit = 2 ^ 236 - 1, PowLimitBits = 0x1e0fffff, TargetTimePerBlock = 150\<rparr>"

definition oneLsh256 :: int where
  "oneLsh256 = push_bit 256 1"

section \<open>big.Int operations\<close>

text \<open>
  \<open>len(n.Bytes())\<close>: the number of bytes of the absolute value, none for zero.
\<close>

fun byteLen :: "nat \<Rightarrow> nat" where
  "byteLen n = (if n = 0 then 0 else Suc (byteLen (n div 256)))"

declare byteLen.simps [simp del]

text \<open>
  \<open>big.Int.Div\<close> is Euclidean division (the remainder is never negative); it panics on a
  zero divisor, which every caller below excludes or turns into a fault first.
\<close>

definition bigDiv :: "int \<Rightarrow> int \<Rightarrow> int" where
  "bigDiv x y = (if 0 < y then x div y else - (x div (- y)))"

text \<open>
  \<open>big.Int.Int64\<close>: the low 64 bits of the magnitude, negated for a negative number;
  that is the number modulo \<open>2 ^ 64\<close>.
\<close>

definition Int64 :: "int \<Rightarrow> 64 word" where
  "Int64 x = word_of_int x"

section \<open>Compact difficulty codec\<close>

definition CompactToBig :: "32 word \<Rightarrow> int" where
  "CompactToBig compact =
     (let mantissa = compact AND 0x007fffff;
          isNegative = (compact AND 0x00800000 \<noteq> 0);
          exponent = unat (drop_bit 24 compact);
          bn = (if exponent \<le> 3
                then uint (drop_bit (8 * (3 - exponent)) mantissa)
                else push_bit (8 * (exponent - 3)) (uint mantissa))
      in if isNegative then - bn else bn)"

text \<open>
  \<open>n.Bits()[0]\<close> converted to \<open>uint32\<close> is the magnitude modulo \<open>2 ^ 32\<close>. \<open>Rsh\<close> on a
  \<open>big.Int\<close> is an arithmetic shift (it rounds a negative number down), and the mantissa is
  read from the magnitude of the shifted number. The exponent is a \<open>uint\<close>;
  \<open>uint32(exponent<<24)\<close> keeps its low 8 bits.
\<close>

definition BigToCompact :: "int \<Rightarrow> 32 word" where
  "BigToCompact n =
     (if n = 0 then 0
      else
        let exponent = byteLen (nat \<bar>n\<bar>);
            mantissa = (if exponent \<le> 3
                        then push_bit (8 * (3 - exponent)) (word_of_int \<bar>n\<bar> :: 32 word)
                        else word_of_int \<bar>drop_bit (8 * (exponent - 3)) n\<bar>);
            shifted = (mantissa AND 0x00800000 \<noteq> 0);
            mantissa' = (if shifted then drop_bit 8 mantissa else mantissa);
            exponent' = (if shifted then exponent + 1 else exponent);
            compact = ucast (push_bit 24 (word_of_nat exponent' :: 64 word)) OR mantissa'
        in if n < 0 then compact OR 0x00800000 else compact)"

section \<open>Work estimator\<close>

definition CalcWork :: "32 word \<Rightarrow> int" where
  "CalcWork bits =
     (let difficultyNum = CompactToBig bits
      in if difficultyNum \<le> 0 then 0
         else bigDiv oneLsh256 (difficultyNum + 1))"

section \<open>Retargeting calculator\<close>

definition minBlocks :: int where
  "minBlocks = 144"

definition maxBlocks :: int where
  "maxBlocks = 4032"

text \<open>\<open>headers[len(headers)+idx]\<close>: Go panics when the index is outside the slice.\<close>

definition headerAt :: "BlockHeader list \<Rightarrow> int \<Rightarrow> fault + BlockHeader" where
  "headerAt headers idx =
     (let j = int (length headers) + idx
      in if 0 \<le> j \<and> j < int (length headers) then Inr (headers ! nat j)
         else Inl IndexOutOfRange)"

text \<open>
  The variables the loop of \<open>calcDiffAdjustKGW\<close> carries from one pass to the next.
  \<open>previousDifficultyAverage\<close> is assigned \<open>difficultyAverage\<close> in every pass before it is
  read in the next, so one field stands for both. The \<open>int64\<close> variables hold their signed
  values.
\<close>

record scan =
  difficultyAverage :: int
  actualRate :: int
  targetRate :: int
  blocksScanned :: int

definition scan0 :: scan where
  "scan0 = \<lparr>difficultyAverage = 0, actualRate = 0, targetRate = 0, blocksScanned = 0\<rparr>"

text \<open>One pass of the loop up to the event-horizon test (lines 249 to 270).\<close>

definition sample :: "Params \<Rightarrow> BlockHeader \<Rightarrow> BlockHeader \<Rightarrow> int \<Rightarrow> scan \<Rightarrow> scan" where
  "sample p lastSolved currentBlock i s =
     (let scanned = blocksScanned s + 1;
          average = (if i = 1 then CompactToBig (Bits currentBlock)
                     else bigDiv (CompactToBig (Bits currentBlock) - difficultyAverage s) i
                          + difficultyAverage s);
          actual = sint (unix (Timestamp lastSolved) - unix (Timestamp currentBlock));
          target = sint (TargetTimePerBlock p * word_of_int scanned)
      in \<lparr>difficultyAverage = average,
          actualRate = (if actual < 0 then 0 else actual),
          targetRate = target,
          blocksScanned = scanned\<rparr>)"

text \<open>
  The event-horizon test of lines 266 to 283 is floating-point arithmetic
  (\<open>math.Pow\<close> and a division of \<open>float64\<close> values). It is a parameter of the model:
  \<open>outside scanned actual target\<close> is the truth value of
  \<open>rateAdjustmentRatio <= eventHorizonDevationSlow || rateAdjustmentRatio >= eventHorizonDeviationFast\<close>
  for these values of \<open>blocksScanned\<close>, \<open>actualRate\<close> and \<open>targetRate\<close>. All theorems
  hold for every such function.
\<close>

type_synonym horizon = "int \<Rightarrow> int \<Rightarrow> int \<Rightarrow> bool"

function kgwLoop ::
  "horizon \<Rightarrow> BlockHeader list \<Rightarrow> Params \<Rightarrow> BlockHeader \<Rightarrow> int \<Rightarrow> int \<Rightarrow> int
     \<Rightarrow> BlockHeader \<Rightarrow> scan \<Rightarrow> fault + scan" where
  "kgwLoop outside headers p lastSolved i currentHeight idx currentBlock s =
     (if \<not> currentHeight > 0 then Inr s
      else if i > maxBlocks then Inr s
      else
        let s' = sample p lastSolved currentBlock i s
        in if blocksScanned s' \<ge> minBlocks
              \<and> outside (blocksScanned s') (actualRate s') (targetRate s') then Inr s'
           else if currentHeight \<le> 1 then Inr s'
           else (case headerAt headers (idx - 1) of
                   Inl f \<Rightarrow> Inl f
                 | Inr currentBlock' \<Rightarrow>
                     kgwLoop outside headers p lastSolved (i + 1) (currentHeight - 1) (idx - 1)
                       currentBlock' s'))"
  by pat_completeness auto
termination
  by (relation "measure (\<lambda>(outside, headers, p, lastSolved, i, currentHeight, idx, currentBlock, s).
        nat (maxBlocks + 1 - i))") auto

declare kgwLoop.simps [simp del]

text \<open>Lines 296 to 301: the target before the clamp.\<close>

definition rawTarget :: "scan \<Rightarrow> int" where
  "rawTarget s =
     (if actualRate s \<noteq> 0 \<and> targetRate s \<noteq> 0
      then bigDiv (difficultyAverage s * actualRate s) (targetRate s)
      else difficultyAverage s)"

text \<open>Lines 303 to 305.\<close>

definition clampTarget :: "Params \<Rightarrow> int \<Rightarrow> int" where
  "clampTarget p newTarget = (if newTarget > PowLimit p then PowLimit p else newTarget)"

text \<open>
  The scan of lines 231 to 294: the first header read and the loop. The header read first
  is both \<open>lastSolved\<close> and the first \<open>currentBlock\<close>.
\<close>

definition kgwScan :: "horizon \<Rightarrow> BlockHeader list \<Rightarrow> 32 word \<Rightarrow> Params \<Rightarrow> fault + scan" where
  "kgwScan outside headers height p =
     (case headerAt headers (- 2) of
        Inl f \<Rightarrow> Inl f
      | Inr currentBlock \<Rightarrow>
          kgwLoop outside headers p currentBlock 1 (sint (height - 1)) (- 2) currentBlock scan0)"

text \<open>
  The result is the pair the Go function returns: the compact difficulty and the
  \<open>error\<close>, \<open>None\<close> for \<open>nil\<close>.
\<close>

definition calcDiffAdjustKGW ::
  "horizon \<Rightarrow> BlockHeader list \<Rightarrow> 32 word \<Rightarrow> Params \<Rightarrow> fault + (32 word \<times> string option)" where
  "calcDiffAdjustKGW outside headers height p =
     (if sint (height - 1) < minBlocks then Inr (PowLimitBits p, None)
      else (case kgwScan outside headers height p of
              Inl f \<Rightarrow> Inl f
            | Inr s \<Rightarrow> Inr (BigToCompact (clampTarget p (rawTarget s)), None)))"

section \<open>Simulation driver\<close>

text \<open>
  Lines 493 and 494: the work of the block divided by the hash rate, read as an \<open>int64\<close>.
  \<open>big.Int.Div\<close> panics when the divisor is zero.
\<close>

definition timeToBlock :: "32 word \<Rightarrow> int \<Rightarrow> fault + 64 word" where
  "timeToBlock diff hashRate =
     (if hashRate = 0 then Inl DivisionByZero
      else Inr (Int64 (bigDiv (CalcWork diff) hashRate)))"

text \<open>
  The variables of \<open>main\<close> that the simulation loop reads and writes, and the row it
  prints for a block: height, difficulty bits and \<open>timeInSeconds\<close> (printed as minutes
  and seconds).
\<close>

record driver =
  lastBlocks :: "BlockHeader list"
  bestHeader :: BlockHeader
  height :: "64 word"
  diff :: "32 word"
  totalSeconds :: "64 word"

record row =
  rowHeight :: "64 word"
  rowDiff :: "32 word"
  rowTime :: "64 word"

text \<open>
  One pass of the loop of lines 490 to 513. The row is printed before the new header is
  made, so it is emitted also when a later statement of the pass panics. \<open>time.Time.Add\<close>
  belongs to Go's library and is a parameter: \<open>timeAdd t s\<close> is
  \<open>t.Add(time.Second * time.Duration(s))\<close>. \<open>lastBlocks[1:]\<close> panics on an empty
  slice; \<open>log.Fatal\<close> ends the program when the calculator returns an error.
\<close>

definition simStep ::
  "horizon \<Rightarrow> (gotime \<Rightarrow> 64 word \<Rightarrow> gotime) \<Rightarrow> int \<Rightarrow> driver \<Rightarrow> row list \<times> (fault + driver)" where
  "simStep outside timeAdd hashRate st =
     (case timeToBlock (diff st) hashRate of
        Inl f \<Rightarrow> ([], Inl f)
      | Inr timeInSeconds \<Rightarrow>
          let height' = height st + 1;
              r = \<lparr>rowHeight = height', rowDiff = diff st, rowTime = timeInSeconds\<rparr>;
              newHeader = \<lparr>Timestamp = timeAdd (Timestamp (bestHeader st)) timeInSeconds,
                           Bits = diff st\<rparr>
          in (case lastBlocks st of
                [] \<Rightarrow> ([r], Inl SliceOutOfRange)
              | _ # rest \<Rightarrow>
                  let lastBlocks' = rest @ [newHeader]
                  in (case calcDiffAdjustKGW outside lastBlocks' (ucast height') VertcoinParams of
                        Inl f \<Rightarrow> ([r], Inl f)
                      | Inr (_, Some err) \<Rightarrow> ([r], Inl (Fatal err))
                      | Inr (diff', None) \<Rightarrow>
                          ([r], Inr \<lparr>lastBlocks = lastBlocks',
                                     bestHeader = last lastBlocks',
                                     height = height',
                                     diff = diff',
                                     totalSeconds = totalSeconds st + timeInSeconds\<rparr>))))"

text \<open>
  The loop runs \<open>numBlocks\<close> passes; a panic ends it. The result is the rows printed and
  the final state or the fault.
\<close>

fun simulate ::
  "horizon \<Rightarrow> (gotime \<Rightarrow> 64 word \<Rightarrow> gotime) \<Rightarrow> int \<Rightarrow> nat \<Rightarrow> driver
     \<Rightarrow> row list \<times> (fault + driver)" where
  "simulate outside timeAdd hashRate 0 st = ([], Inr st)"
| "simulate outside timeAdd hashRate (Suc n) st =
     (case simStep outside timeAdd hashRate st of
        (rows, Inl f) \<Rightarrow> (rows, Inl f)
      | (rows, Inr st') \<Rightarrow>
          (case simulate outside timeAdd hashRate n st' of
             (rows', res) \<Rightarrow> (rows @ rows', res)))"

section \<open>Arithmetic reading of the codec\<close>

text \<open>
  Auxiliary functions for the proofs, not part of the program. \<open>expField\<close> and
  \<open>manField\<close> are the exponent byte and the 23-bit mantissa of a compact value;
  \<open>decMag\<close> is the magnitude \<open>CompactToBig\<close> computes from them. \<open>encMant0\<close> is the
  mantissa \<open>BigToCompact\<close> first takes from a positive number, \<open>encExp\<close> and \<open>encMan\<close>
  are the exponent and mantissa it packs.
\<close>

definition expField :: "32 word \<Rightarrow> nat" where
  "expField c = unat c div 2 ^ 24"

definition manField :: "32 word \<Rightarrow> nat" where
  "manField c = unat c mod 2 ^ 23"

definition decMag :: "nat \<Rightarrow> nat \<Rightarrow> nat" where
  "decMag e m = (if e \<le> 3 then m div 256 ^ (3 - e) else m * 256 ^ (e - 3))"

definition encMant0 :: "nat \<Rightarrow> nat" where
  "encMant0 a =
     (if byteLen a \<le> 3 then a * 256 ^ (3 - byteLen a) else a div 256 ^ (byteLen a - 3))"

definition encExp :: "nat \<Rightarrow> nat" where
  "encExp a = (if 8388608 \<le> encMant0 a then byteLen a + 1 else byteLen a)"

definition encMan :: "nat \<Rightarrow> nat" where
  "encMan a = (if 8388608 \<le> encMant0 a then encMant0 a div 256 else encMant0 a)"

text \<open>
  \<open>goesOn\<close> says that a pass of the loop with sample \<open>s'\<close> neither ends the loop nor is
  its last one: the next header is read.
\<close>

definition goesOn :: "horizon \<Rightarrow> int \<Rightarrow> int \<Rightarrow> scan \<Rightarrow> bool" where
  "goesOn outside i currentHeight s' =
     (1 < currentHeight \<and> i \<le> maxBlocks
      \<and> \<not> (minBlocks \<le> blocksScanned s'
           \<and> outside (blocksScanned s') (actualRate s') (targetRate s')))"

text \<open>
  A compact value is \<open>normalized\<close> when it is 0, or its mantissa has at least 16 bits and
  \<open>CompactToBig\<close> shifts no set mantissa bit out (line 346 shifts the mantissa right by
  \<open>8 * (3 - exponent)\<close> bits). \<open>truncatesMantissa\<close> says that line 346 does shift a set
  bit out.
\<close>

definition normalized :: "32 word \<Rightarrow> bool" where
  "normalized c = (c = 0 \<or> (32768 \<le> manField c \<and> 256 ^ (3 - expField c) dvd manField c))"

definition truncatesMantissa :: "32 word \<Rightarrow> bool" where
  "truncatesMantissa c = (\<not> 256 ^ (3 - expField c) dvd manField c)"

section \<open>Values used in the examples\<close>

text \<open>
  A header with the given Unix time and bits; an event-horizon test that never holds and
  one that always holds; \<open>Add\<close> on times whose duration does not overflow. Two windows of
  146 headers, scanned at height 145: in \<open>steepWindow\<close> the blocks came far slower than
  the target time, in \<open>flatWindow\<close> exactly at the target time. \<open>driverStart\<close> is a
  driver state whose next window is \<open>flatWindow\<close>.
\<close>

definition mkHeader :: "64 word \<Rightarrow> 32 word \<Rightarrow> BlockHeader" where
  "mkHeader t b = \<lparr>Timestamp = \<lparr>unix = t, nanos = 0\<rparr>, Bits = b\<rparr>"

definition insideHorizon :: horizon where
  "insideHorizon scanned actual target = False"

definition outsideHorizon :: horizon where
  "outsideHorizon scanned actual target = True"

definition addSeconds :: "gotime \<Rightarrow> 64 word \<Rightarrow> gotime" where
  "addSeconds t s = t\<lparr>unix := unix t + s\<rparr>"

definition steepWindow :: "BlockHeader list" where
  "steepWindow =
     replicate 144 (mkHeader 0 0x1e0fffff) @ [mkHeader 1000000 0x1e0fffff, mkHeader 1000150 0x1c0ffff0]"

definition flatWindow :: "BlockHeader list" where
  "flatWindow =
     replicate 144 (mkHeader 0 0x1c0ffff0) @ [mkHeader 21600 0x1c0ffff0, mkHeader 21847 0x1b012345]"

definition driverStart :: driver where
  "driverStart =
     \<lparr>lastBlocks = mkHeader 0 0x1c0ffff0 # replicate 144 (mkHeader 0 0x1c0ffff0)
                     @ [mkHeader 21600 0x1c0ffff0],
      bestHeader = mkHeader 21600 0x1c0ffff0,
      height = 144,
      diff = 0x1b012345,
      totalSeconds = 0\<rparr>"

section \<open>The young-chain floor\<close>

text \<open>
  C2: when \<open>height - 1 < 144\<close> (in \<open>int32\<close> arithmetic, as the code computes it), the
  calculator returns \<open>PowLimitBits\<close> and a nil error, whatever the window and the other
  parameters are.
\<close>

theorem young_chain_returns_PowLimitBits:
  assumes "sint (ht - 1) < 144"
  shows "calcDiffAdjustKGW outside headers ht p = Inr (PowLimitBits p, None)"
  using assms by (simp add: calcDiffAdjustKGW_def minBlocks_def)

theorem young_chain_returns_PowLimitBits_witness:
  "sint (100 - 1 :: 32 word) < 144
   \<and> calcDiffAdjustKGW outsideHorizon [] 100 VertcoinParams = Inr (0x1e0fffff, None)"
proof -
  have h: "sint (100 - 1 :: 32 word) < 144"
    by simp
  show ?thesis
    using h young_chain_returns_PowLimitBits [OF h, of outsideHorizon "[]" VertcoinParams]
    by (simp add: VertcoinParams_def)
qed

section \<open>Codec lemmas\<close>

lemma bit_nat_bound: "M < 2 ^ k \<Longrightarrow> bit (M::nat) n \<Longrightarrow> n < k"
proof (rule ccontr)
  assume a: "M < 2 ^ k" "bit M n" "\<not> n < k"
  then have "(2::nat) ^ k \<le> 2 ^ n" by simp
  with a have "M < 2 ^ n" by linarith
  then have "M div 2 ^ n = 0" by simp
  with a show False by (simp add: bit_iff_odd)
qed

lemma bit_below_23: "M < 8388608 \<Longrightarrow> bit (M::nat) n \<Longrightarrow> n < 23"
  using bit_nat_bound [of M 23 n] by simp

lemma bit_below_24: "M < 16777216 \<Longrightarrow> bit (M::nat) n \<Longrightarrow> n < 24"
  using bit_nat_bound [of M 24 n] by simp

lemma mantissa_mask: "(0x007fffff :: 32 word) = mask 23"
  by (simp add: mask_eq_exp_minus_1)

lemma sign_mask: "(0x00800000 :: 32 word) = push_bit 23 1"
  by simp

lemma unat_exponent: "unat (drop_bit 24 (c :: 32 word)) = unat c div 2 ^ 24"
  by (simp add: drop_bit_eq_div unat_div)

lemma unat_mantissa: "unat ((c :: 32 word) AND 0x007fffff) = unat c mod 2 ^ 23"
  unfolding mantissa_mask by (simp add: take_bit_eq_mod unat_mod flip: take_bit_eq_mask)

lemma sign_test_bit: "((c :: 32 word) AND 0x00800000 \<noteq> 0) = bit c 23"
  unfolding sign_mask by (metis and_exp_eq_0_iff_not_bit push_bit_of_1)

lemma sign_bit_odd: "bit (c :: 32 word) 23 = odd (unat c div 2 ^ 23)"
proof -
  have "bit c 23 = bit (unat c) 23" by (simp add: bit_unsigned_iff)
  then show ?thesis unfolding bit_iff_odd [of "unat c"] .
qed

lemma packed_mantissa: "M < 8388608 \<Longrightarrow>
   (ucast (push_bit 24 (word_of_nat e :: 64 word)) OR word_of_nat M :: 32 word) AND 0x007fffff = word_of_nat M"
  unfolding mantissa_mask 
  apply (rule bit_word_eqI)
  apply (auto simp add: bit_simps dest: bit_below_23)
  done

lemma packed_sign_clear: "M < 8388608 \<Longrightarrow>
   \<not> bit (ucast (push_bit 24 (word_of_nat e :: 64 word)) OR word_of_nat M :: 32 word) 23"
  by (auto simp add: bit_simps dest: bit_below_23)

lemma packed_exponent: "M < 16777216 \<Longrightarrow>
   drop_bit 24 (ucast (push_bit 24 (word_of_nat e :: 64 word)) OR word_of_nat M :: 32 word) = word_of_nat (take_bit 8 e)"
  apply (rule bit_word_eqI)
  apply (auto simp add: bit_simps dest: bit_below_24)
  done

lemma sign_bit_set: "bit ((x :: 32 word) OR 0x00800000) 23"
  unfolding sign_mask by (simp add: bit_simps)

lemma pow256: "(256::nat) ^ k = 2 ^ (8 * k)"
  by (simp add: power_mult)

lemma pow256_int: "(256::int) ^ k = 2 ^ (8 * k)"
  by (simp add: power_mult)

lemma byteLen_0 [simp]: "byteLen 0 = 0"
  by (simp add: byteLen.simps)

lemma byteLen_pos: "0 < a \<Longrightarrow> byteLen a = Suc (byteLen (a div 256))"
  by (subst byteLen.simps) simp

lemma byteLen_upper: "a < 256 ^ byteLen a"
proof (induction a rule: byteLen.induct)
  case (1 n)
  show ?case
  proof (cases "n = 0")
    case True
    then show ?thesis by simp
  next
    case False
    with 1 have "n div 256 < 256 ^ byteLen (n div 256)" by simp
    then have "n < 256 * 256 ^ byteLen (n div 256)" by simp
    with False show ?thesis by (simp add: byteLen_pos)
  qed
qed

lemma byteLen_lower: "0 < a \<Longrightarrow> 256 ^ (byteLen a - 1) \<le> a"
proof (induction a rule: byteLen.induct)
  case (1 n)
  show ?case
  proof (cases "n div 256 = 0")
    case True
    with 1(2) show ?thesis by (simp add: byteLen_pos)
  next
    case False
    with 1 have "256 ^ (byteLen (n div 256) - 1) \<le> n div 256" by simp
    moreover from False have "byteLen (n div 256) = Suc (byteLen (n div 256) - 1)"
      by (simp add: byteLen_pos)
    ultimately have "256 ^ byteLen (n div 256) \<le> 256 * (n div 256)"
      by (metis power_Suc mult_le_mono2)
    also have "\<dots> \<le> n" by simp
    finally show ?thesis using 1(2) by (simp add: byteLen_pos)
  qed
qed

lemma byteLen_unique:
  assumes "256 ^ k \<le> a" "a < 256 ^ Suc k"
  shows "byteLen a = Suc k"
proof -
  from assms have pos: "0 < a"
    by (metis gr0I not_less zero_less_numeral zero_less_power)
  have "\<not> byteLen a \<le> k"
  proof
    assume "byteLen a \<le> k"
    then have "(256::nat) ^ byteLen a \<le> 256 ^ k" by (simp add: power_increasing)
    with byteLen_upper [of a] assms show False by simp
  qed
  moreover have "\<not> Suc (Suc k) \<le> byteLen a"
  proof
    assume "Suc (Suc k) \<le> byteLen a"
    then have "Suc k \<le> byteLen a - 1" by simp
    then have "(256::nat) ^ Suc k \<le> 256 ^ (byteLen a - 1)" by (rule power_increasing) simp
    with byteLen_lower [OF pos] assms show False by simp
  qed
  ultimately show ?thesis by simp
qed

lemma CompactToBig_arith:
  "CompactToBig c =
     (if bit c 23 then - int (decMag (expField c) (manField c))
      else int (decMag (expField c) (manField c)))"
proof -
  have e: "unat (drop_bit 24 c) = expField c"
    by (simp only: unat_exponent expField_def)
  have m: "unat (c AND 0x007fffff) = manField c"
    by (simp only: unat_mantissa manField_def)
  have d: "uint (drop_bit k (c AND 0x007fffff)) = int (manField c div 2 ^ k)" for k
  proof -
    have "unat (drop_bit k (c AND 0x007fffff)) = manField c div 2 ^ k"
      by (subst unat_drop_bit_eq) (simp only: m drop_bit_eq_div)
    then show ?thesis by (simp only: uint_nat)
  qed
  have u: "uint (c AND 0x007fffff) = int (manField c)"
    by (simp only: uint_nat m)
  have p: "push_bit k (int x) = int (x * 2 ^ k)" for k x
    by (simp add: push_bit_eq_mult)
  show ?thesis
    unfolding CompactToBig_def Let_def e sign_test_bit d u p decMag_def pow256
    by simp
qed

lemma byteLen_ge1: "0 < a \<Longrightarrow> 1 \<le> byteLen a"
  by (simp add: byteLen_pos)

lemma encMant0_bounds:
  assumes "0 < a"
  shows "65536 \<le> encMant0 a" and "encMant0 a < 16777216"
proof -
  let ?L = "byteLen a"
  have L1: "1 \<le> ?L" using assms by (rule byteLen_ge1)
  have lo: "256 ^ (?L - 1) \<le> a" using assms by (rule byteLen_lower)
  have hi: "a < 256 ^ ?L" by (rule byteLen_upper)
  show "65536 \<le> encMant0 a"
  proof (cases "?L \<le> 3")
    case True
    have "(256::nat) ^ 2 = 256 ^ (?L - 1) * 256 ^ (3 - ?L)"
      using True L1 by (simp flip: power_add)
    also have "\<dots> \<le> a * 256 ^ (3 - ?L)"
      using lo by (rule mult_le_mono1)
    finally show ?thesis using True by (simp add: encMant0_def)
  next
    case False
    have "?L - 1 = 2 + (?L - 3)" using False by simp
    then have "(256::nat) ^ (?L - 1) = 256 ^ 2 * 256 ^ (?L - 3)"
      by (simp only: power_add)
    with lo have "256 ^ 2 * 256 ^ (?L - 3) \<le> a" by simp
    then have "(256::nat) ^ 2 \<le> a div 256 ^ (?L - 3)"
      by (simp add: less_eq_div_iff_mult_less_eq)
    then show ?thesis using False by (simp add: encMant0_def)
  qed
  show "encMant0 a < 16777216"
  proof (cases "?L \<le> 3")
    case True
    have "a * 256 ^ (3 - ?L) < 256 ^ ?L * 256 ^ (3 - ?L)"
      using hi by simp
    also have "\<dots> = 256 ^ 3"
      using True by (simp flip: power_add)
    finally show ?thesis using True by (simp add: encMant0_def)
  next
    case False
    have "?L = 3 + (?L - 3)" using False by simp
    then have "(256::nat) ^ ?L = 256 ^ 3 * 256 ^ (?L - 3)"
      by (metis power_add)
    with hi have "a < 256 ^ 3 * 256 ^ (?L - 3)" by simp
    then have "a div 256 ^ (?L - 3) < 256 ^ 3"
      by (simp add: less_mult_imp_div_less)
    then show ?thesis using False by (simp add: encMant0_def)
  qed
qed

lemma encMan_bounds:
  assumes "0 < a"
  shows "32768 \<le> encMan a" and "encMan a < 8388608"
  using encMant0_bounds [OF assms] by (auto simp add: encMan_def)

lemma unat_of_nat32: "M < 16777216 \<Longrightarrow> unat (word_of_nat M :: 32 word) = M"
  by (simp add: unat_of_nat)

lemma shifted_iff:
  assumes "M < 16777216"
  shows "((word_of_nat M :: 32 word) AND 0x00800000 \<noteq> 0) = (8388608 \<le> M)"
proof -
  have "bit (word_of_nat M :: 32 word) 23 = odd (M div 2 ^ 23)"
    using assms by (simp only: sign_bit_odd unat_of_nat32)
  moreover have "odd (M div 2 ^ 23) = (8388608 \<le> M)"
  proof (cases "8388608 \<le> M")
    case True
    with assms have "M div 2 ^ 23 = 1" by simp
    with True show ?thesis by simp
  next
    case False
    then have "M div 2 ^ 23 = 0" by simp
    with False show ?thesis by simp
  qed
  ultimately show ?thesis by (simp only: sign_test_bit)
qed

lemma drop8_of_nat:
  assumes "M < 16777216"
  shows "drop_bit 8 (word_of_nat M :: 32 word) = word_of_nat (M div 256)"
proof -
  have "unat (drop_bit 8 (word_of_nat M :: 32 word)) = M div 256"
    using assms by (subst unat_drop_bit_eq) (simp add: unat_of_nat32 drop_bit_eq_div)
  moreover have "unat (word_of_nat (M div 256) :: 32 word) = M div 256"
    using assms by (simp add: unat_of_nat)
  ultimately show ?thesis by (simp only: word_unat_eq_iff)
qed

lemma mantissa_pos:
  "(if byteLen a \<le> 3
    then push_bit (8 * (3 - byteLen a)) (word_of_int (int a) :: 32 word)
    else word_of_int \<bar>drop_bit (8 * (byteLen a - 3)) (int a)\<bar>)
   = word_of_nat (encMant0 a)"
proof -
  have p: "push_bit (8 * j) (word_of_int (int x) :: 32 word) = word_of_nat (x * 256 ^ j)" for j x
    by (simp add: push_bit_eq_mult pow256)
  have d: "\<bar>drop_bit (8 * j) (int x)\<bar> = int (x div 256 ^ j)" for j x
  proof -
    have "0 \<le> int x div 2 ^ (8 * j)" by (simp add: pos_imp_zdiv_nonneg_iff)
    then show ?thesis by (simp add: drop_bit_eq_div pow256 zdiv_int)
  qed
  show ?thesis
  proof (cases "byteLen a \<le> 3")
    case True
    then show ?thesis by (simp only: p encMant0_def if_True)
  next
    case False
    then show ?thesis by (simp only: d encMant0_def if_False of_int_of_nat_eq)
  qed
qed

lemma BigToCompact_pos:
  assumes "0 < a"
  shows "BigToCompact (int a) =
           ucast (push_bit 24 (word_of_nat (encExp a) :: 64 word)) OR word_of_nat (encMan a)"
proof -
  define m0 :: "32 word" where
    "m0 = (if byteLen a \<le> 3
           then push_bit (8 * (3 - byteLen a)) (word_of_int (int a))
           else word_of_int \<bar>drop_bit (8 * (byteLen a - 3)) (int a)\<bar>)"
  have m0: "m0 = word_of_nat (encMant0 a)"
    unfolding m0_def by (rule mantissa_pos)
  have b: "encMant0 a < 16777216" using assms by (rule encMant0_bounds)
  have "BigToCompact (int a) =
          ucast (push_bit 24 (word_of_nat (if m0 AND 0x00800000 \<noteq> 0 then byteLen a + 1 else byteLen a) :: 64 word))
            OR (if m0 AND 0x00800000 \<noteq> 0 then drop_bit 8 m0 else m0)"
    unfolding BigToCompact_def m0_def using assms by (simp add: Let_def)
  also have "\<dots> = ucast (push_bit 24 (word_of_nat (encExp a) :: 64 word)) OR word_of_nat (encMan a)"
    unfolding m0 shifted_iff [OF b] drop8_of_nat [OF b] encExp_def encMan_def
    by (simp only: if_distrib [of word_of_nat])
  finally show ?thesis .
qed

lemma packed_fields:
  fixes e M :: nat
  assumes "M < 8388608"
  defines "c \<equiv> (ucast (push_bit 24 (word_of_nat e :: 64 word)) OR word_of_nat M :: 32 word)"
  shows "expField c = e mod 256" and "manField c = M" and "\<not> bit c 23"
proof -
  have M24: "M < 16777216" using assms(1) by simp
  have "expField c = unat (drop_bit 24 c)"
    by (simp only: expField_def unat_exponent)
  also have "\<dots> = unat (word_of_nat (take_bit 8 e) :: 32 word)"
    unfolding c_def by (simp only: packed_exponent [OF M24])
  also have "\<dots> = e mod 256"
    by (simp add: unat_of_nat take_bit_eq_mod)
  finally show "expField c = e mod 256" .
  have "manField c = unat (c AND 0x007fffff)"
    by (simp only: manField_def unat_mantissa)
  also have "\<dots> = unat (word_of_nat M :: 32 word)"
    unfolding c_def by (simp only: packed_mantissa [OF assms(1)])
  also have "\<dots> = M"
    using M24 by (rule unat_of_nat32)
  finally show "manField c = M" .
  show "\<not> bit c 23"
    unfolding c_def using assms(1) by (rule packed_sign_clear)
qed

lemma decode_encode_pos:
  assumes "0 < a"
  shows "CompactToBig (BigToCompact (int a)) = int (decMag (encExp a mod 256) (encMan a))"
proof -
  have b: "encMan a < 8388608" using assms by (rule encMan_bounds)
  show ?thesis
    unfolding BigToCompact_pos [OF assms] CompactToBig_arith
    by (simp only: packed_fields [OF b] if_False)
qed

lemma decMag_scaled: "decMag e m * 256 ^ 3 \<le> m * 256 ^ e"
proof (cases "e \<le> 3")
  case True
  then have e: "3 = (3 - e) + e" by simp
  have "m div 256 ^ (3 - e) * 256 ^ 3 = (m div 256 ^ (3 - e) * 256 ^ (3 - e)) * 256 ^ e"
    by (subst e) (simp only: power_add mult.assoc)
  also have "\<dots> \<le> m * 256 ^ e"
    by (rule mult_le_mono1) simp
  finally show ?thesis using True by (simp only: decMag_def if_True)
next
  case False
  then have e: "e = (e - 3) + 3" by simp
  have "m * 256 ^ (e - 3) * 256 ^ 3 = m * 256 ^ e"
    by (subst (2) e) (simp only: power_add mult.assoc)
  then show ?thesis using False by (simp only: decMag_def if_False)
qed

lemma encMant0_scaled: "encMant0 a * 256 ^ byteLen a \<le> a * 256 ^ 3"
proof (cases "byteLen a \<le> 3")
  case True
  then have e: "3 = (3 - byteLen a) + byteLen a" by simp
  have "a * 256 ^ (3 - byteLen a) * 256 ^ byteLen a = a * 256 ^ 3"
    by (subst (2) e) (simp only: power_add mult.assoc)
  then show ?thesis using True by (simp only: encMant0_def if_True)
next
  case False
  then have e: "byteLen a = (byteLen a - 3) + 3" by simp
  have "a div 256 ^ (byteLen a - 3) * 256 ^ byteLen a
          = (a div 256 ^ (byteLen a - 3) * 256 ^ (byteLen a - 3)) * 256 ^ 3"
    by (subst (2) e) (simp only: power_add mult.assoc)
  also have "\<dots> \<le> a * 256 ^ 3"
    by (rule mult_le_mono1) simp
  finally show ?thesis using False by (simp only: encMant0_def if_False)
qed

lemma encMan_scaled: "encMan a * 256 ^ encExp a \<le> encMant0 a * 256 ^ byteLen a"
proof (cases "8388608 \<le> encMant0 a")
  case True
  have "encMant0 a div 256 * 256 ^ (byteLen a + 1) = (encMant0 a div 256 * 256) * 256 ^ byteLen a"
    by simp
  also have "\<dots> \<le> encMant0 a * 256 ^ byteLen a"
    by (rule mult_le_mono1) simp
  finally show ?thesis using True by (simp only: encMan_def encExp_def if_True)
next
  case False
  then show ?thesis by (simp only: encMan_def encExp_def if_False)
qed

lemma decMag_enc_le: "decMag (encExp a mod 256) (encMan a) \<le> a"
proof -
  have "decMag (encExp a mod 256) (encMan a) * 256 ^ 3 \<le> encMan a * 256 ^ (encExp a mod 256)"
    by (rule decMag_scaled)
  also have "\<dots> \<le> encMan a * 256 ^ encExp a"
    by (rule mult_le_mono2) (simp add: power_increasing)
  also have "\<dots> \<le> encMant0 a * 256 ^ byteLen a"
    by (rule encMan_scaled)
  also have "\<dots> \<le> a * 256 ^ 3"
    by (rule encMant0_scaled)
  finally show ?thesis by simp
qed

lemma bit23_nonpos: "bit c 23 \<Longrightarrow> CompactToBig c \<le> 0"
  by (simp add: CompactToBig_arith)

lemma BigToCompact_neg_bit: "n < 0 \<Longrightarrow> bit (BigToCompact n) 23"
  unfolding BigToCompact_def Let_def by (simp add: sign_bit_set)

lemma decode_encode_le: "CompactToBig (BigToCompact n) \<le> max n 0"
proof -
  consider "n = 0" | "n < 0" | "0 < n" by linarith
  then show ?thesis
  proof cases
    case 1
    then show ?thesis by (simp add: BigToCompact_def CompactToBig_arith decMag_def manField_def)
  next
    case 2
    then have "CompactToBig (BigToCompact n) \<le> 0"
      by (intro bit23_nonpos BigToCompact_neg_bit)
    then show ?thesis by simp
  next
    case 3
    then obtain a where n: "n = int a" and p: "0 < a"
      by (metis zero_less_imp_eq_int)
    have "CompactToBig (BigToCompact (int a)) \<le> int a"
      unfolding decode_encode_pos [OF p] using decMag_enc_le [of a] by simp
    with n show ?thesis by simp
  qed
qed

section \<open>The round trip of the codec\<close>

lemma expField_drop: "expField c = drop_bit 24 (unat c)"
  by (simp add: expField_def drop_bit_eq_div)

lemma manField_take: "manField c = take_bit 23 (unat c)"
  by (simp add: manField_def take_bit_eq_mod)

lemma manField_less: "manField c < 8388608"
  by (simp add: manField_def)

lemma expField_less: "expField c < 256"
proof -
  have "unat c < 2 ^ 32" using unsigned_less [of c] by simp
  then show ?thesis by (simp add: expField_def)
qed

lemma bit_sign_mask: "bit (0x00800000 :: 32 word) n = (n = 23)"
proof -
  have "bit (push_bit 23 (1 :: 32 word)) n = (n = 23)"
    by (simp only: bit_push_bit_iff bit_1_iff possible_bit_word) auto
  then show ?thesis by (simp only: sign_mask)
qed

lemma bit_sign_int: "bit (8388608 :: int) n = (n = 23)"
proof -
  have "bit ((2 :: int) ^ 23) n = (n = 23)"
    by (simp only: bit_exp_iff) simp
  then show ?thesis by simp
qed

lemma word_recompose:
  "c = (if bit c 23
        then (ucast (push_bit 24 (word_of_nat (expField c) :: 64 word)) OR word_of_nat (manField c))
               OR 0x00800000
        else ucast (push_bit 24 (word_of_nat (expField c) :: 64 word)) OR word_of_nat (manField c))"
proof (cases "bit c 23")
  case True
  have "c = (ucast (push_bit 24 (word_of_nat (expField c) :: 64 word)) OR word_of_nat (manField c))
               OR 0x00800000"
  proof (rule bit_word_eqI)
    fix n assume "n < LENGTH(32)"
    with True show "bit c n = bit ((ucast (push_bit 24 (word_of_nat (expField c) :: 64 word))
        OR word_of_nat (manField c)) OR 0x00800000 :: 32 word) n"
      by (cases "n < 23"; cases "n = 23")
        (auto simp add: bit_simps bit_sign_mask bit_sign_int expField_drop manField_take)
  qed
  with True show ?thesis by (simp only: if_True)
next
  case False
  have "c = ucast (push_bit 24 (word_of_nat (expField c) :: 64 word)) OR word_of_nat (manField c)"
  proof (rule bit_word_eqI)
    fix n assume "n < LENGTH(32)"
    with False show "bit c n = bit (ucast (push_bit 24 (word_of_nat (expField c) :: 64 word))
        OR word_of_nat (manField c) :: 32 word) n"
      by (cases "n < 23"; cases "n = 23")
        (auto simp add: bit_simps expField_drop manField_take)
  qed
  with False show ?thesis by (simp only: if_False)
qed

lemma sign_fields:
  shows "expField (x OR 0x00800000) = expField x"
    and "manField (x OR 0x00800000) = manField x"
proof -
  have "drop_bit 24 (x OR 0x00800000) = drop_bit 24 x"
    by (rule bit_word_eqI) (auto simp add: bit_simps bit_sign_mask bit_sign_int)
  then have "unat (drop_bit 24 (x OR 0x00800000)) = unat (drop_bit 24 x)" by simp
  then show "expField (x OR 0x00800000) = expField x"
    by (simp only: unat_exponent expField_def)
  have "(x OR 0x00800000) AND 0x007fffff = x AND 0x007fffff"
    unfolding mantissa_mask by (rule bit_word_eqI) (auto simp add: bit_simps bit_sign_mask bit_sign_int)
  then have "unat ((x OR 0x00800000) AND 0x007fffff) = unat (x AND 0x007fffff)" by simp
  then show "manField (x OR 0x00800000) = manField x"
    by (simp only: unat_mantissa manField_def)
qed

lemma byteLen_le:
  assumes "a < 256 ^ k"
  shows "byteLen a \<le> k"
proof (cases "a = 0")
  case True
  then show ?thesis by simp
next
  case False
  then have "256 ^ (byteLen a - 1) \<le> a" by (intro byteLen_lower) simp
  then have "(256::nat) ^ (byteLen a - 1) < 256 ^ k" using assms by (rule le_less_trans)
  then have "byteLen a - 1 < k" by (simp add: power_strict_increasing_iff)
  then show ?thesis by simp
qed

lemma encMant0_exact:
  assumes "a * 256 ^ 3 = K * 256 ^ byteLen a"
  shows "encMant0 a = K"
proof (cases "byteLen a \<le> 3")
  case True
  then have e: "3 = (3 - byteLen a) + byteLen a" by simp
  have "a * 256 ^ (3 - byteLen a) * 256 ^ byteLen a = a * 256 ^ 3"
    by (subst (2) e) (simp only: power_add mult.assoc)
  with assms have "a * 256 ^ (3 - byteLen a) * 256 ^ byteLen a = K * 256 ^ byteLen a"
    by simp
  then have "a * 256 ^ (3 - byteLen a) = K" by simp
  with True show ?thesis by (simp only: encMant0_def if_True)
next
  case False
  then have e: "byteLen a = (byteLen a - 3) + 3" by simp
  have "K * 256 ^ byteLen a = K * 256 ^ (byteLen a - 3) * 256 ^ 3"
    by (subst e) (simp only: power_add mult.assoc)
  with assms have "a * 256 ^ 3 = K * 256 ^ (byteLen a - 3) * 256 ^ 3" by simp
  then have "a = K * 256 ^ (byteLen a - 3)" by simp
  then have "a div 256 ^ (byteLen a - 3) = K"
    by (metis nonzero_mult_div_cancel_right power_not_zero zero_neq_numeral)
  with False show ?thesis by (simp only: encMant0_def if_False)
qed

text \<open>
  The pair the encoder packs is the only one with a mantissa of 16 to 23 bits that
  represents the number exactly.
\<close>

lemma enc_unique:
  assumes "0 < a" and "32768 \<le> m" and "m < 8388608" and "a * 256 ^ 3 = m * 256 ^ e"
  shows "encExp a = e \<and> encMan a = m"
proof (cases "65536 \<le> m")
  case True
  have e1: "1 \<le> e"
  proof (rule ccontr)
    assume "\<not> 1 \<le> e"
    then have "e = 0" by simp
    with assms(3,4) have "a * 256 ^ 3 < 256 ^ 3" by simp
    with assms(1) show False by simp
  qed
  then have p: "(256::nat) ^ e = 256 ^ (e - 1) * 256" 
    by (metis power_minus_mult zero_less_one_class.zero_less_one le_eq_less_or_eq less_le_trans
        less_numeral_extra(1) not_less)
  have "256 ^ (e - 1) * 256 ^ 3 \<le> m * 256 ^ e"
    using True by (subst p) simp
  with assms(4) have lo: "256 ^ (e - 1) \<le> a" by simp
  have "m * 256 ^ e < 256 ^ 3 * 256 ^ e"
    using assms(3) by simp
  with assms(4) have "a * 256 ^ 3 < 256 ^ e * 256 ^ 3" by (simp add: mult.commute)
  then have hi: "a < 256 ^ e" by simp
  from e1 have "Suc (e - 1) = e" by simp
  with lo hi have L: "byteLen a = e"
    using byteLen_unique [of "e - 1" a] by simp
  with assms(4) have "encMant0 a = m" by (intro encMant0_exact) simp
  with assms(3) L show ?thesis by (simp add: encExp_def encMan_def)
next
  case False
  have e2: "2 \<le> e"
  proof (rule ccontr)
    assume "\<not> 2 \<le> e"
    then have "e = 0 \<or> e = 1" by auto
    with False assms(4) have "a * 256 ^ 3 < 256 ^ 3" by auto
    with assms(1) show False by simp
  qed
  then have p: "(256::nat) ^ e = 256 ^ (e - 2) * 256 ^ 2"
    by (metis le_add_diff_inverse2 power_add)
  have "(256::nat) ^ (e - 2) * 256 ^ 3 \<le> 128 * (256 ^ (e - 2) * 256 ^ 3)"
    by simp
  also have "\<dots> = 32768 * 256 ^ e"
    by (subst p) simp
  also have "\<dots> \<le> m * 256 ^ e"
    using assms(2) by simp
  finally have lo: "256 ^ (e - 2) \<le> a" using assms(4) by simp
  have "m * 256 ^ e < 256 ^ 2 * 256 ^ e"
    using False by simp
  also have "\<dots> = 256 ^ (e - 2) * 256 * 256 ^ 3"
    by (subst p) simp
  finally have hi: "a < 256 ^ (e - 2) * 256" using assms(4) by simp
  from e2 have s: "Suc (e - 2) = e - 1" by simp
  from hi have "a < 256 ^ Suc (e - 2)" by (simp add: mult.commute)
  with lo have "byteLen a = Suc (e - 2)" by (rule byteLen_unique)
  with s have L: "byteLen a = e - 1" by simp
  have "a * 256 ^ 3 = (256 * m) * 256 ^ (e - 1)"
  proof -
    from e2 have "(256::nat) ^ e = 256 * 256 ^ (e - 1)"
      by (metis One_nat_def Suc_1 Suc_le_lessD power_eq_if not_less_zero)
    with assms(4) show ?thesis by simp
  qed
  with L have M0: "encMant0 a = 256 * m" by (intro encMant0_exact) simp
  with assms(2) L e2 show ?thesis by (simp add: encExp_def encMan_def)
qed

lemma enc_low_bits:
  assumes "0 < a"
  shows "256 ^ (3 - encExp a) dvd encMan a"
proof (cases "byteLen a \<le> 3")
  case False
  then have "3 - encExp a = 0" by (simp add: encExp_def)
  then show ?thesis by simp
next
  case True
  then have M0: "encMant0 a = a * 256 ^ (3 - byteLen a)" by (simp add: encMant0_def)
  show ?thesis
  proof (cases "8388608 \<le> encMant0 a")
    case False
    with M0 show ?thesis by (simp add: encExp_def encMan_def)
  next
    case big: True
    show ?thesis
    proof (cases "byteLen a = 3")
      case True
      with big show ?thesis by (simp add: encExp_def)
    next
      case False
      with True have "3 - byteLen a = Suc (3 - (byteLen a + 1))" by simp
      with M0 have "encMant0 a = a * 256 ^ (3 - (byteLen a + 1)) * 256" by simp
      then have "encMant0 a div 256 = a * 256 ^ (3 - (byteLen a + 1))" by simp
      with big show ?thesis by (simp add: encExp_def encMan_def)
    qed
  qed
qed

lemma BigToCompact_neg:
  assumes "0 < a" and "256 ^ (byteLen a - 3) dvd a"
  shows "BigToCompact (- int a) = BigToCompact (int a) OR 0x00800000"
proof -
  define m0 :: "32 word" where
    "m0 = (if byteLen a \<le> 3
           then push_bit (8 * (3 - byteLen a)) (word_of_int (int a))
           else word_of_int \<bar>drop_bit (8 * (byteLen a - 3)) (int a)\<bar>)"
  define m1 :: "32 word" where
    "m1 = (if byteLen a \<le> 3
           then push_bit (8 * (3 - byteLen a)) (word_of_int (int a))
           else word_of_int \<bar>drop_bit (8 * (byteLen a - 3)) (- int a)\<bar>)"
  have "(2::int) ^ (8 * (byteLen a - 3)) dvd int a"
  proof -
    have "int (256 ^ (byteLen a - 3)) dvd int a"
      using assms(2) by (simp only: int_dvd_int_iff)
    then show ?thesis by (simp add: pow256_int)
  qed
  then have "(- int a) div 2 ^ (8 * (byteLen a - 3)) = - (int a div 2 ^ (8 * (byteLen a - 3)))"
    by (rule dvd_neg_div)
  then have "\<bar>drop_bit (8 * (byteLen a - 3)) (- int a)\<bar> = \<bar>drop_bit (8 * (byteLen a - 3)) (int a)\<bar>"
    by (simp add: drop_bit_eq_div)
  then have same: "m1 = m0"
    by (simp add: m0_def m1_def)
  have "BigToCompact (int a) =
          ucast (push_bit 24 (word_of_nat (if m0 AND 0x00800000 \<noteq> 0 then byteLen a + 1 else byteLen a) :: 64 word))
            OR (if m0 AND 0x00800000 \<noteq> 0 then drop_bit 8 m0 else m0)"
    unfolding BigToCompact_def m0_def using assms(1) by (simp add: Let_def)
  moreover have "BigToCompact (- int a) =
          (ucast (push_bit 24 (word_of_nat (if m1 AND 0x00800000 \<noteq> 0 then byteLen a + 1 else byteLen a) :: 64 word))
            OR (if m1 AND 0x00800000 \<noteq> 0 then drop_bit 8 m1 else m1)) OR 0x00800000"
    unfolding BigToCompact_def m1_def using assms(1) by (simp add: Let_def)
  ultimately show ?thesis
    by (simp only: same)
qed

lemma decMag_exact:
  assumes "256 ^ (3 - e) dvd m"
  shows "decMag e m * 256 ^ 3 = m * 256 ^ e"
proof (cases "e \<le> 3")
  case True
  then have e: "3 = (3 - e) + e" by simp
  have "m div 256 ^ (3 - e) * 256 ^ 3 = (m div 256 ^ (3 - e) * 256 ^ (3 - e)) * 256 ^ e"
    by (subst e) (simp only: power_add mult.assoc)
  also have "\<dots> = m * 256 ^ e"
    using assms by simp
  finally show ?thesis using True by (simp only: decMag_def if_True)
next
  case False
  then have e: "e = (e - 3) + 3" by simp
  have "m * 256 ^ (e - 3) * 256 ^ 3 = m * 256 ^ e"
    by (subst (2) e) (simp only: power_add mult.assoc)
  then show ?thesis using False by (simp only: decMag_def if_False)
qed

lemma decMag_less:
  assumes "m < 8388608"
  shows "decMag e m < 256 ^ e"
proof -
  have "decMag e m * 256 ^ 3 \<le> m * 256 ^ e"
    by (rule decMag_scaled)
  also have "\<dots> < 256 ^ 3 * 256 ^ e"
    using assms by simp
  finally show ?thesis by simp
qed

lemma decMag_dvd:
  assumes "m < 8388608"
  shows "256 ^ (byteLen (decMag e m) - 3) dvd decMag e m"
proof (cases "byteLen (decMag e m) \<le> 3")
  case True
  then show ?thesis by simp
next
  case False
  have le: "byteLen (decMag e m) \<le> e"
    using decMag_less [OF assms] by (rule byteLen_le)
  with False have "\<not> e \<le> 3" by simp
  then have "decMag e m = m * 256 ^ (e - 3)" by (simp add: decMag_def)
  moreover have "(256::nat) ^ (byteLen (decMag e m) - 3) dvd 256 ^ (e - 3)"
    using le by (intro le_imp_power_dvd) simp
  ultimately show ?thesis by simp
qed

lemma roundtrip_zero:
  assumes "decMag (expField c) (manField c) = 0"
  shows "BigToCompact (CompactToBig c) = 0"
  using assms by (simp add: CompactToBig_arith BigToCompact_def)

lemma roundtrip_pos:
  assumes "0 < decMag (expField c) (manField c)"
  shows "BigToCompact (CompactToBig c) =
     (if bit c 23
      then (ucast (push_bit 24 (word_of_nat (encExp (decMag (expField c) (manField c))) :: 64 word))
             OR word_of_nat (encMan (decMag (expField c) (manField c)))) OR 0x00800000
      else ucast (push_bit 24 (word_of_nat (encExp (decMag (expField c) (manField c))) :: 64 word))
             OR word_of_nat (encMan (decMag (expField c) (manField c))))"
proof (cases "bit c 23")
  case False
  then show ?thesis
    by (simp only: CompactToBig_arith if_False BigToCompact_pos [OF assms])
next
  case True
  have "BigToCompact (- int (decMag (expField c) (manField c)))
        = BigToCompact (int (decMag (expField c) (manField c))) OR 0x00800000"
    using assms by (intro BigToCompact_neg decMag_dvd manField_less)
  with True show ?thesis
    by (simp only: CompactToBig_arith if_True BigToCompact_pos [OF assms])
qed

lemma fields_zero: "expField 0 = 0" "manField 0 = 0"
  by (simp_all add: expField_def manField_def)

lemma roundtrip_fields:
  assumes "0 < decMag (expField c) (manField c)"
  shows "encExp (decMag (expField c) (manField c)) mod 256 = expField (BigToCompact (CompactToBig c))"
    and "encMan (decMag (expField c) (manField c)) = manField (BigToCompact (CompactToBig c))"
proof -
  let ?v = "decMag (expField c) (manField c)"
  let ?P = "ucast (push_bit 24 (word_of_nat (encExp ?v) :: 64 word)) OR word_of_nat (encMan ?v) :: 32 word"
  have b: "encMan ?v < 8388608" using assms by (rule encMan_bounds)
  have e: "expField ?P = encExp ?v mod 256" and m: "manField ?P = encMan ?v"
    using b by (rule packed_fields)+
  have es: "expField (?P OR 0x00800000) = encExp ?v mod 256"
    using e by (simp only: sign_fields)
  have ms: "manField (?P OR 0x00800000) = encMan ?v"
    using m by (simp only: sign_fields)
  have rt: "BigToCompact (CompactToBig c) = (if bit c 23 then ?P OR 0x00800000 else ?P)"
    using assms by (rule roundtrip_pos)
  show "encExp ?v mod 256 = expField (BigToCompact (CompactToBig c))"
    unfolding rt using e es by (cases "bit c 23") (simp_all only: if_True if_False)
  show "encMan ?v = manField (BigToCompact (CompactToBig c))"
    unfolding rt using m ms by (cases "bit c 23") (simp_all only: if_True if_False)
qed

text \<open>
  C5, as the code has it: decoding and encoding again reproduces a compact value exactly
  when it is 0 or normalized, that is, its 23-bit mantissa is at least \<open>0x008000\<close> and,
  for an exponent below 3, the mantissa bytes that decoding shifts out are zero.
\<close>

theorem roundtrip_iff_normalized:
  "BigToCompact (CompactToBig c) = c \<longleftrightarrow> normalized c"
proof (cases "decMag (expField c) (manField c) = 0")
  case True
  have rt: "BigToCompact (CompactToBig c) = 0"
    using True by (rule roundtrip_zero)
  have "\<not> (32768 \<le> manField c \<and> 256 ^ (3 - expField c) dvd manField c)"
  proof
    assume a: "32768 \<le> manField c \<and> 256 ^ (3 - expField c) dvd manField c"
    then have "decMag (expField c) (manField c) * 256 ^ 3 = manField c * 256 ^ expField c"
      by (intro decMag_exact) simp
    with True a show False by simp
  qed
  with rt show ?thesis by (auto simp add: normalized_def)
next
  case False
  let ?v = "decMag (expField c) (manField c)"
  from False have pos: "0 < ?v" by simp
  have nz: "c \<noteq> 0"
  proof
    assume "c = 0"
    with False show False by (simp add: fields_zero decMag_def)
  qed
  show ?thesis
  proof
    assume n: "normalized c"
    with nz have m: "32768 \<le> manField c" and d: "256 ^ (3 - expField c) dvd manField c"
      by (simp_all add: normalized_def)
    have "?v * 256 ^ 3 = manField c * 256 ^ expField c"
      using d by (rule decMag_exact)
    with pos m manField_less [of c]
    have "encExp ?v = expField c \<and> encMan ?v = manField c"
      by (intro enc_unique)
    then have "BigToCompact (CompactToBig c) =
       (if bit c 23
        then (ucast (push_bit 24 (word_of_nat (expField c) :: 64 word)) OR word_of_nat (manField c))
               OR 0x00800000
        else ucast (push_bit 24 (word_of_nat (expField c) :: 64 word)) OR word_of_nat (manField c))"
      by (simp only: roundtrip_pos [OF pos])
    also have "\<dots> = c"
      by (rule word_recompose [symmetric])
    finally show "BigToCompact (CompactToBig c) = c" .
  next
    assume rt: "BigToCompact (CompactToBig c) = c"
    from roundtrip_fields [OF pos]
    have e: "encExp ?v mod 256 = expField c" and m: "encMan ?v = manField c"
      by (simp_all only: rt)
    have "32768 \<le> encMan ?v"
      using pos by (rule encMan_bounds)
    then have m_lo: "32768 \<le> manField c"
      by (simp only: m)
    have "?v < 256 ^ expField c"
      using manField_less by (rule decMag_less)
    then have "byteLen ?v \<le> expField c"
      by (rule byteLen_le)
    then have "encExp ?v \<le> expField c + 1"
      by (simp add: encExp_def)
    with expField_less [of c] have "encExp ?v \<le> 256" by simp
    moreover have "encExp ?v \<noteq> 256"
    proof
      assume "encExp ?v = 256"
      with e have "expField c = 0" by simp
      with \<open>?v < 256 ^ expField c\<close> pos show False by simp
    qed
    ultimately have "encExp ?v < 256" by simp
    with e have e': "encExp ?v = expField c" by simp
    have "256 ^ (3 - encExp ?v) dvd encMan ?v"
      using pos by (rule enc_low_bits)
    then have "256 ^ (3 - expField c) dvd manField c"
      by (simp only: e' m)
    with m_lo show "normalized c" by (simp add: normalized_def)
  qed
qed

text \<open>
  C5 as stated fails for \<open>0x04000001\<close>: decoding shifts no mantissa bit out (the value is
  256), but encoding 256 gives \<open>0x02010000\<close>.
\<close>

theorem roundtrip_counterexample:
  "\<not> truncatesMantissa 0x04000001
   \<and> CompactToBig 0x04000001 = 256
   \<and> BigToCompact (CompactToBig 0x04000001) = 0x02010000
   \<and> BigToCompact (CompactToBig 0x04000001) \<noteq> 0x04000001"
proof -
  have d: "CompactToBig 0x04000001 = 256"
    by (simp add: CompactToBig_def)
  have "BigToCompact 256 = 0x02010000"
    by (simp add: BigToCompact_def byteLen.simps)
  with d show ?thesis
    by (simp add: truncatesMantissa_def expField_def manField_def)
qed

section \<open>The backward scan\<close>

lemma sample_blocksScanned: "blocksScanned (sample p ls cb i s) = blocksScanned s + 1"
  by (simp add: sample_def Let_def)

lemma kgwLoop_goesOn:
  assumes "goesOn outside i ch (sample p ls cb i s)"
  shows "kgwLoop outside hs p ls i ch idx cb s =
           (case headerAt hs (idx - 1) of
              Inl f \<Rightarrow> Inl f
            | Inr cb' \<Rightarrow> kgwLoop outside hs p ls (i + 1) (ch - 1) (idx - 1) cb' (sample p ls cb i s))"
  using assms by (subst kgwLoop.simps) (auto simp add: goesOn_def Let_def)

lemma kgwLoop_halts:
  assumes "\<not> goesOn outside i ch (sample p ls cb i s)"
  shows "kgwLoop outside hs p ls i ch idx cb s =
           Inr (if 0 < ch \<and> i \<le> maxBlocks then sample p ls cb i s else s)"
  using assms by (subst kgwLoop.simps) (auto simp add: goesOn_def Let_def)

text \<open>The loop reads no header outside \<open>headers[len-4034]\<close> to \<open>headers[len-3]\<close>.\<close>

lemma kgwLoop_cong_headers:
  assumes "\<And>j. - 4034 \<le> j \<Longrightarrow> j \<le> - 3 \<Longrightarrow> headerAt hs j = headerAt hs' j"
    and "idx = - i - 1" and "1 \<le> i"
  shows "kgwLoop outside hs p ls i ch idx cb s = kgwLoop outside hs' p ls i ch idx cb s"
  using assms
proof (induction outside hs p ls i ch idx cb s rule: kgwLoop.induct)
  case (1 outside headers p lastSolved i currentHeight idx currentBlock s)
  let ?s' = "sample p lastSolved currentBlock i s"
  show ?case
  proof (cases "goesOn outside i currentHeight ?s'")
    case False
    then show ?thesis by (simp add: kgwLoop_halts)
  next
    case True
    then have "i \<le> 4032" by (simp add: goesOn_def maxBlocks_def)
    with "1.prems" have rd: "headerAt headers (idx - 1) = headerAt hs' (idx - 1)"
      by (intro "1.prems"(1)) simp_all
    show ?thesis
    proof (cases "headerAt hs' (idx - 1)")
      case (Inl f)
      with True rd show ?thesis by (simp add: kgwLoop_goesOn)
    next
      case (Inr cb')
      have "kgwLoop outside headers p lastSolved (i + 1) (currentHeight - 1) (idx - 1) cb' ?s'
            = kgwLoop outside hs' p lastSolved (i + 1) (currentHeight - 1) (idx - 1) cb' ?s'"
        using True Inr rd "1.prems" by (intro "1.IH") (auto simp add: goesOn_def)
      with True Inr rd show ?thesis by (simp add: kgwLoop_goesOn)
    qed
  qed
qed

text \<open>With 4034 headers or more, every read of the loop is inside the window.\<close>

lemma headerAt_in_range:
  assumes "- int (length hs) \<le> j" and "j < 0"
  shows "headerAt hs j = Inr (hs ! nat (int (length hs) + j))"
  using assms by (simp add: headerAt_def Let_def)

lemma headerAt_out_of_range:
  assumes "j < - int (length hs) \<or> 0 \<le> j"
  shows "headerAt hs j = Inl IndexOutOfRange"
  using assms by (auto simp add: headerAt_def Let_def)

lemma kgwLoop_total:
  assumes "4034 \<le> length hs" and "idx = - i - 1" and "1 \<le> i"
  shows "\<exists>s'. kgwLoop outside hs p ls i ch idx cb s = Inr s'"
  using assms
proof (induction outside hs p ls i ch idx cb s rule: kgwLoop.induct)
  case (1 outside headers p lastSolved i currentHeight idx currentBlock s)
  let ?s' = "sample p lastSolved currentBlock i s"
  show ?case
  proof (cases "goesOn outside i currentHeight ?s'")
    case False
    then show ?thesis by (simp add: kgwLoop_halts)
  next
    case True
    then have "i \<le> 4032" by (simp add: goesOn_def maxBlocks_def)
    with "1.prems" have rd: "headerAt headers (idx - 1)
        = Inr (headers ! nat (int (length headers) + (idx - 1)))"
      by (intro headerAt_in_range) simp_all
    have "\<exists>s'. kgwLoop outside headers p lastSolved (i + 1) (currentHeight - 1) (idx - 1)
                 (headers ! nat (int (length headers) + (idx - 1))) ?s' = Inr s'"
      using True rd "1.prems" by (intro "1.IH") (auto simp add: goesOn_def)
    with True rd show ?thesis by (simp add: kgwLoop_goesOn)
  qed
qed

lemma headerAt_prefix_irrelevant:
  assumes "- int (length hs) \<le> j" and "j < 0"
  shows "headerAt (older @ hs) j = headerAt hs j"
proof -
  have "nat (int (length older) + int (length hs) + j) = length older + nat (int (length hs) + j)"
    using assms by (simp add: nat_add_distrib)
  with assms show ?thesis
    by (simp add: headerAt_def Let_def nth_append)
qed

lemma headerAt_extend:
  assumes "headerAt hs j = Inr x"
  shows "headerAt (older @ hs) j = Inr x"
proof -
  from assms have "- int (length hs) \<le> j \<and> j < 0"
    by (auto simp add: headerAt_def Let_def split: if_splits)
  with assms show ?thesis by (simp add: headerAt_prefix_irrelevant)
qed

text \<open>
  A scan that returns has read only headers of the window, so it returns the same on a
  window with older headers in front.
\<close>

lemma kgwLoop_extend:
  assumes "kgwLoop outside hs p ls i ch idx cb s = Inr s'"
  shows "kgwLoop outside (older @ hs) p ls i ch idx cb s = Inr s'"
  using assms
proof (induction outside hs p ls i ch idx cb s rule: kgwLoop.induct)
  case (1 outside headers p lastSolved i currentHeight idx currentBlock s)
  let ?s' = "sample p lastSolved currentBlock i s"
  show ?case
  proof (cases "goesOn outside i currentHeight ?s'")
    case False
    with "1.prems" show ?thesis by (simp add: kgwLoop_halts)
  next
    case True
    show ?thesis
    proof (cases "headerAt headers (idx - 1)")
      case (Inl f)
      with True "1.prems" show ?thesis by (simp add: kgwLoop_goesOn)
    next
      case (Inr cb')
      then have rd: "headerAt (older @ headers) (idx - 1) = Inr cb'"
        by (rule headerAt_extend)
      from True Inr "1.prems"
      have "kgwLoop outside headers p lastSolved (i + 1) (currentHeight - 1) (idx - 1) cb' ?s' = Inr s'"
        by (simp add: kgwLoop_goesOn)
      with True Inr
      have "kgwLoop outside (older @ headers) p lastSolved (i + 1) (currentHeight - 1) (idx - 1) cb' ?s'
            = Inr s'"
        by (intro "1.IH") (auto simp add: goesOn_def)
      with True rd show ?thesis by (simp add: kgwLoop_goesOn)
    qed
  qed
qed

text \<open>
  Before 144 samples are taken and while the height is above 1 the loop goes on, so a
  window of fewer than 145 headers is left by an out-of-range read.
\<close>

lemma kgwLoop_short_window:
  assumes "length hs < 145" and "idx = - i - 1" and "1 \<le> i" and "145 \<le> ch + i"
    and "blocksScanned s = i - 1" and "i < int (length hs)"
  shows "kgwLoop outside hs p ls i ch idx cb s = Inl IndexOutOfRange"
  using assms
proof (induction outside hs p ls i ch idx cb s rule: kgwLoop.induct)
  case (1 outside headers p lastSolved i currentHeight idx currentBlock s)
  let ?s' = "sample p lastSolved currentBlock i s"
  from "1.prems" have i: "i \<le> 143" and h: "1 < currentHeight" by simp_all
  have bs: "blocksScanned ?s' = i"
    using "1.prems" by (simp add: sample_blocksScanned)
  have go: "goesOn outside i currentHeight ?s'"
    using i h bs by (simp add: goesOn_def maxBlocks_def minBlocks_def)
  show ?case
  proof (cases "i + 1 < int (length headers)")
    case False
    then have "int (length headers) \<le> i + 1" by simp
    with "1.prems"(2) have "idx - 1 < - int (length headers)" by simp
    then have "headerAt headers (idx - 1) = Inl IndexOutOfRange"
      by (intro headerAt_out_of_range) simp
    with go show ?thesis by (simp add: kgwLoop_goesOn)
  next
    case True
    with "1.prems" have rd: "headerAt headers (idx - 1)
        = Inr (headers ! nat (int (length headers) + (idx - 1)))"
      by (intro headerAt_in_range) simp_all
    have "kgwLoop outside headers p lastSolved (i + 1) (currentHeight - 1) (idx - 1)
            (headers ! nat (int (length headers) + (idx - 1))) ?s' = Inl IndexOutOfRange"
      using go rd "1.prems" True bs by (intro "1.IH") (auto simp add: goesOn_def)
    with go rd show ?thesis by (simp add: kgwLoop_goesOn)
  qed
qed

text \<open>
  At height 145 the 144th sample is taken at height 1, where the loop ends whatever the
  event-horizon test says: the result does not depend on the test.
\<close>

lemma kgwLoop_horizon_irrelevant:
  assumes "ch + i \<le> 145" and "blocksScanned s = i - 1"
  shows "kgwLoop outside hs p ls i ch idx cb s = kgwLoop outside' hs p ls i ch idx cb s"
  using assms
proof (induction outside hs p ls i ch idx cb s rule: kgwLoop.induct)
  case (1 outside headers p lastSolved i currentHeight idx currentBlock s)
  let ?s' = "sample p lastSolved currentBlock i s"
  have bs: "blocksScanned ?s' = i"
    using "1.prems" by (simp add: sample_blocksScanned)
  have same: "goesOn outside i currentHeight ?s' = goesOn outside' i currentHeight ?s'"
    using "1.prems" bs by (auto simp add: goesOn_def minBlocks_def)
  show ?case
  proof (cases "goesOn outside i currentHeight ?s'")
    case False
    moreover from False same have "\<not> goesOn outside' i currentHeight ?s'" by simp
    ultimately show ?thesis by (simp add: kgwLoop_halts)
  next
    case True
    show ?thesis
    proof (cases "headerAt headers (idx - 1)")
      case (Inl f)
      with True same show ?thesis by (simp add: kgwLoop_goesOn)
    next
      case (Inr cb')
      have "kgwLoop outside headers p lastSolved (i + 1) (currentHeight - 1) (idx - 1) cb' ?s'
            = kgwLoop outside' headers p lastSolved (i + 1) (currentHeight - 1) (idx - 1) cb' ?s'"
        using True Inr "1.prems" bs by (intro "1.IH") (auto simp add: goesOn_def)
      with True same Inr show ?thesis by (simp add: kgwLoop_goesOn)
    qed
  qed
qed

lemma kgwScan_height_145:
  "kgwScan outside headers 145 p = kgwScan outside' headers 145 p"
proof -
  have "kgwLoop outside headers p cb 1 (sint (145 - 1 :: 32 word)) (- 2) cb scan0
        = kgwLoop outside' headers p cb 1 (sint (145 - 1 :: 32 word)) (- 2) cb scan0" for cb
    by (rule kgwLoop_horizon_irrelevant) (simp_all add: scan0_def)
  then show ?thesis
    by (simp add: kgwScan_def split: sum.splits)
qed

lemma calcDiffAdjustKGW_height_145:
  "calcDiffAdjustKGW outside headers 145 p = calcDiffAdjustKGW outside' headers 145 p"
  using kgwScan_height_145 [of outside headers p outside']
  by (simp add: calcDiffAdjustKGW_def)

section \<open>Evaluation on the example windows\<close>

text \<open>
  Both example windows are scanned at height 145, where the result is the same for every
  event-horizon test (\<open>kgwScan_height_145\<close>); the evaluations below take the test that
  always holds.
\<close>

lemma headerAt_window:
  "headerAt (replicate n x @ [y, z]) idx =
     (if idx = - 1 then Inr z
      else if idx = - 2 then Inr y
      else if - int n - 2 \<le> idx \<and> idx \<le> - 3 then Inr x
      else Inl IndexOutOfRange)"
  by (auto simp add: headerAt_def Let_def nth_append nat_add_distrib nat_diff_distrib)

lemma CompactToBig_ceiling: "CompactToBig 0x1e0fffff = 2 ^ 236 - 2 ^ 216"
  by (simp add: CompactToBig_def)

lemma CompactToBig_start: "CompactToBig 0x1c0ffff0 = 0xffff0 * 2 ^ 200"
  by (simp add: CompactToBig_def)

lemmas scan_eval =
  kgwScan_def headerAt_window kgwLoop.simps sample_def Let_def mkHeader_def VertcoinParams_def
  scan0_def minBlocks_def maxBlocks_def bigDiv_def outsideHorizon_def

lemma steepWindow_scan:
  "kgwScan outsideHorizon steepWindow 145 VertcoinParams =
     Inr \<lparr>difficultyAverage = 2 ^ 236 - 2 ^ 216, actualRate = 1000000, targetRate = 21600,
          blocksScanned = 144\<rparr>"
  by (simp add: steepWindow_def scan_eval CompactToBig_ceiling)

lemma flatWindow_scan:
  "kgwScan outsideHorizon flatWindow 145 VertcoinParams =
     Inr \<lparr>difficultyAverage = 0xffff0 * 2 ^ 200, actualRate = 21600, targetRate = 21600,
          blocksScanned = 144\<rparr>"
  by (simp add: flatWindow_def scan_eval CompactToBig_start)

lemma BigToCompact_ceiling: "BigToCompact (2 ^ 236 - 1) = 0x1e0fffff"
  by (simp add: BigToCompact_def byteLen.simps)

lemma BigToCompact_start: "BigToCompact (0xffff0 * 2 ^ 200) = 0x1c0ffff0"
  by (simp add: BigToCompact_def byteLen.simps)

lemma steepWindow_result:
  "calcDiffAdjustKGW outsideHorizon steepWindow 145 VertcoinParams = Inr (0x1e0fffff, None)"
  unfolding calcDiffAdjustKGW_def steepWindow_scan
  using BigToCompact_ceiling
  by (simp add: rawTarget_def clampTarget_def bigDiv_def minBlocks_def VertcoinParams_def)

lemma flatWindow_result:
  "calcDiffAdjustKGW outsideHorizon flatWindow 145 VertcoinParams = Inr (0x1c0ffff0, None)"
  unfolding calcDiffAdjustKGW_def flatWindow_scan
  using BigToCompact_start
  by (simp add: rawTarget_def clampTarget_def bigDiv_def minBlocks_def VertcoinParams_def)

section \<open>The first sample\<close>

lemma headerAt_last_irrelevant:
  assumes "j \<le> - 2"
  shows "headerAt (hs @ [z]) j = headerAt (hs @ [z']) j"
  using assms by (auto simp add: headerAt_def Let_def nth_append)

lemma headerAt_second_to_last: "headerAt (hs @ [y, z]) (- 2) = Inr y"
  by (simp add: headerAt_def Let_def nth_append)

lemma kgwScan_last_irrelevant:
  "kgwScan outside (hs @ [z]) ht p = kgwScan outside (hs @ [z']) ht p"
proof -
  have rd: "headerAt (hs @ [z]) (- 2) = headerAt (hs @ [z']) (- 2)"
    by (rule headerAt_last_irrelevant) simp
  have "kgwLoop outside (hs @ [z]) p cb 1 ch (- 2) cb scan0
        = kgwLoop outside (hs @ [z']) p cb 1 ch (- 2) cb scan0" for cb ch
    by (rule kgwLoop_cong_headers) (simp_all add: headerAt_last_irrelevant)
  with rd show ?thesis
    by (simp add: kgwScan_def split: sum.splits)
qed

lemma headerAt_third_to_last: "headerAt (hs @ [x, y, z]) (- 3) = Inr x"
  by (simp add: headerAt_def Let_def nth_append)

lemma first_sample: 
  "sample p y y 1 scan0
     = \<lparr>difficultyAverage = CompactToBig (Bits y), actualRate = 0,
        targetRate = sint (TargetTimePerBlock p), blocksScanned = 1\<rparr>"
  by (simp add: sample_def scan0_def Let_def)

text \<open>
  The first pass of the loop: with \<open>height - 1 >= 144\<close> it samples the header it was
  started on and goes on to the header before it.
\<close>

lemma kgwLoop_first_pass:
  assumes "144 \<le> ch"
  shows "kgwLoop outside (hs @ [x, y, z]) p y 1 ch (- 2) y scan0
           = kgwLoop outside (hs @ [x, y, z]) p y 2 (ch - 1) (- 3) x (sample p y y 1 scan0)"
proof -
  have "goesOn outside 1 ch (sample p y y 1 scan0)"
    using assms by (simp add: goesOn_def first_sample maxBlocks_def minBlocks_def)
  then show ?thesis
    by (simp add: kgwLoop_goesOn headerAt_third_to_last)
qed

lemma kgwLoop_second_pass:
  assumes "144 \<le> ch"
  shows "kgwLoop outside (hs @ [w, x, y, z]) p y 2 (ch - 1) (- 3) x (sample p y y 1 scan0)
           = kgwLoop outside (hs @ [w, x, y, z]) p y 3 (ch - 2) (- 4) w
               (sample p y x 2 (sample p y y 1 scan0))"
proof -
  have "blocksScanned (sample p y x 2 (sample p y y 1 scan0)) = 2"
    by (simp add: sample_blocksScanned first_sample)
  then have "goesOn outside 2 (ch - 1) (sample p y x 2 (sample p y y 1 scan0))"
    using assms by (simp add: goesOn_def maxBlocks_def minBlocks_def)
  moreover have "headerAt (hs @ [w, x, y, z]) (- 4) = Inr w"
    by (simp add: headerAt_def Let_def nth_append)
  ultimately show ?thesis
    by (simp add: kgwLoop_goesOn)
qed

text \<open>
  C1, as the code has it: for \<open>height - 1 >= 144\<close>, sample 1 is \<open>headers[len-2]\<close>, the
  second most recent header of the window. The first pass of the loop seeds the average
  with the target of that header and measures the elapsed time from it (0 for sample 1);
  the second pass samples \<open>headers[len-3]\<close> against it, and so on backwards. The most
  recent header \<open>headers[len-1]\<close> is never read: replacing it changes neither the scan nor
  the result.
\<close>

theorem first_sample_is_second_to_last:
  assumes "144 \<le> sint (ht - 1)"
  shows "kgwScan outside (hs @ [x, y, z]) ht p
           = kgwLoop outside (hs @ [x, y, z]) p y 2 (sint (ht - 1) - 1) (- 3) x
               (sample p y y 1 scan0)
         \<and> sample p y y 1 scan0
             = \<lparr>difficultyAverage = CompactToBig (Bits y), actualRate = 0,
                targetRate = sint (TargetTimePerBlock p), blocksScanned = 1\<rparr>
         \<and> kgwScan outside (hs @ [w, x, y, z]) ht p
             = kgwLoop outside (hs @ [w, x, y, z]) p y 3 (sint (ht - 1) - 2) (- 4) w
                 (sample p y x 2 (sample p y y 1 scan0))
         \<and> kgwScan outside (hs @ [y, z]) ht p = kgwScan outside (hs @ [y, z']) ht p
         \<and> calcDiffAdjustKGW outside (hs @ [y, z]) ht p
             = calcDiffAdjustKGW outside (hs @ [y, z']) ht p"
proof -
  have rd: "headerAt (ws @ [y, z]) (- 2) = Inr y" for ws
    by (rule headerAt_second_to_last)
  have one: "kgwScan outside (hs @ [x, y, z]) ht p
           = kgwLoop outside (hs @ [x, y, z]) p y 2 (sint (ht - 1) - 1) (- 3) x
               (sample p y y 1 scan0)"
    using rd [of "hs @ [x]"] kgwLoop_first_pass [OF assms, of outside hs x y z p]
    by (simp add: kgwScan_def)
  have "kgwScan outside ((hs @ [w]) @ [x, y, z]) ht p
           = kgwLoop outside ((hs @ [w]) @ [x, y, z]) p y 2 (sint (ht - 1) - 1) (- 3) x
               (sample p y y 1 scan0)"
    using rd [of "(hs @ [w]) @ [x]"] kgwLoop_first_pass [OF assms, of outside "hs @ [w]" x y z p]
    by (simp add: kgwScan_def)
  then have two: "kgwScan outside (hs @ [w, x, y, z]) ht p
             = kgwLoop outside (hs @ [w, x, y, z]) p y 3 (sint (ht - 1) - 2) (- 4) w
                 (sample p y x 2 (sample p y y 1 scan0))"
    using kgwLoop_second_pass [OF assms, of outside hs w x y z p] by simp
  have "kgwScan outside ((hs @ [y]) @ [z]) ht p = kgwScan outside ((hs @ [y]) @ [z']) ht p"
    by (rule kgwScan_last_irrelevant)
  then have s: "kgwScan outside (hs @ [y, z]) ht p = kgwScan outside (hs @ [y, z']) ht p"
    by simp
  then have c: "calcDiffAdjustKGW outside (hs @ [y, z]) ht p
             = calcDiffAdjustKGW outside (hs @ [y, z']) ht p"
    by (simp add: calcDiffAdjustKGW_def)
  from one first_sample two s c show ?thesis
    by blast
qed

theorem first_sample_is_second_to_last_witness:
  "144 \<le> sint (145 - 1 :: 32 word)
   \<and> kgwScan outsideHorizon
         [mkHeader 0 0x1c0ffff0, mkHeader 150 0x1c0ffff0, mkHeader 300 0x1c0ffff0,
          mkHeader 450 0x1b012345] 145 VertcoinParams
       = kgwLoop outsideHorizon
           [mkHeader 0 0x1c0ffff0, mkHeader 150 0x1c0ffff0, mkHeader 300 0x1c0ffff0,
            mkHeader 450 0x1b012345] VertcoinParams (mkHeader 300 0x1c0ffff0) 2 143 (- 3)
           (mkHeader 150 0x1c0ffff0)
           (sample VertcoinParams (mkHeader 300 0x1c0ffff0) (mkHeader 300 0x1c0ffff0) 1 scan0)"
proof -
  have h: "144 \<le> sint (145 - 1 :: 32 word)"
    by simp
  show ?thesis
    using h first_sample_is_second_to_last [OF h, of outsideHorizon "[mkHeader 0 0x1c0ffff0]"
        "mkHeader 150 0x1c0ffff0" "mkHeader 300 0x1c0ffff0" "mkHeader 450 0x1b012345"
        VertcoinParams]
    by simp
qed

text \<open>
  C1 as stated fails on \<open>flatWindow\<close> at height 145: its most recent header has time 21847
  and bits \<open>0x1b012345\<close>, but the scan measures 21600 seconds, from the time of the header
  before it, and averages only the bits \<open>0x1c0ffff0\<close> of the older headers.
\<close>

theorem first_sample_counterexample:
  "last flatWindow = mkHeader 21847 0x1b012345
   \<and> headerAt flatWindow (- 2) = Inr (mkHeader 21600 0x1c0ffff0)
   \<and> headerAt flatWindow (- 2) \<noteq> Inr (last flatWindow)
   \<and> kgwScan outsideHorizon flatWindow 145 VertcoinParams =
       Inr \<lparr>difficultyAverage = CompactToBig 0x1c0ffff0, actualRate = 21600,
            targetRate = 21600, blocksScanned = 144\<rparr>"
  by (simp add: flatWindow_scan CompactToBig_start)
    (simp add: flatWindow_def headerAt_window mkHeader_def)

section \<open>The clamp\<close>

lemma calc_scan:
  assumes "144 \<le> sint (ht - 1)"
  shows "calcDiffAdjustKGW outside headers ht p =
           (case kgwScan outside headers ht p of
              Inl f \<Rightarrow> Inl f
            | Inr s \<Rightarrow> Inr (BigToCompact (clampTarget p (rawTarget s)), None))"
  using assms by (simp add: calcDiffAdjustKGW_def minBlocks_def)

lemma PowLimit_Vertcoin: "PowLimit VertcoinParams = 2 ^ 236 - 1"
  by (simp add: VertcoinParams_def)

text \<open>
  C3, as the code has it: when the raw target is above the ceiling target, the result is
  the compact encoding of \<open>PowLimit\<close>. For the reference parameters that is
  \<open>0x1e0fffff\<close>, which decodes to \<open>2^236 - 2^216\<close>: the ceiling \<open>2^236 - 1\<close> cut to the
  three mantissa bytes of the compact form.
\<close>

theorem clamped_result_is_encoded_ceiling:
  assumes "144 \<le> sint (ht - 1)"
    and "kgwScan outside headers ht p = Inr s"
    and "PowLimit p < rawTarget s"
  shows "calcDiffAdjustKGW outside headers ht p = Inr (BigToCompact (PowLimit p), None)
         \<and> BigToCompact (PowLimit VertcoinParams) = PowLimitBits VertcoinParams
         \<and> CompactToBig (PowLimitBits VertcoinParams) = 2 ^ 236 - 2 ^ 216"
proof -
  have "calcDiffAdjustKGW outside headers ht p = Inr (BigToCompact (PowLimit p), None)"
    using assms by (simp add: calc_scan clampTarget_def)
  moreover have "BigToCompact (PowLimit VertcoinParams) = PowLimitBits VertcoinParams"
    using BigToCompact_ceiling by (simp add: VertcoinParams_def)
  moreover have "CompactToBig (PowLimitBits VertcoinParams) = 2 ^ 236 - 2 ^ 216"
    using CompactToBig_ceiling by (simp add: VertcoinParams_def)
  ultimately show ?thesis by simp
qed

lemma steepWindow_raw:
  "rawTarget \<lparr>difficultyAverage = 2 ^ 236 - 2 ^ 216, actualRate = 1000000, targetRate = 21600,
      blocksScanned = 144\<rparr> = (2 ^ 236 - 2 ^ 216) * 1000000 div 21600"
  by (simp add: rawTarget_def bigDiv_def)

theorem clamped_result_is_encoded_ceiling_witness:
  "144 \<le> sint (145 - 1 :: 32 word)
   \<and> kgwScan outsideHorizon steepWindow 145 VertcoinParams =
       Inr \<lparr>difficultyAverage = 2 ^ 236 - 2 ^ 216, actualRate = 1000000, targetRate = 21600,
            blocksScanned = 144\<rparr>
   \<and> PowLimit VertcoinParams
       < rawTarget \<lparr>difficultyAverage = 2 ^ 236 - 2 ^ 216, actualRate = 1000000,
           targetRate = 21600, blocksScanned = 144\<rparr>
   \<and> calcDiffAdjustKGW outsideHorizon steepWindow 145 VertcoinParams
       = Inr (BigToCompact (PowLimit VertcoinParams), None)"
proof -
  have h: "144 \<le> sint (145 - 1 :: 32 word)"
    by simp
  have r: "PowLimit VertcoinParams
       < rawTarget \<lparr>difficultyAverage = 2 ^ 236 - 2 ^ 216, actualRate = 1000000,
           targetRate = 21600, blocksScanned = 144\<rparr>"
    unfolding steepWindow_raw PowLimit_Vertcoin by simp
  show ?thesis
    using h r steepWindow_scan clamped_result_is_encoded_ceiling [OF h steepWindow_scan r]
    by simp
qed

text \<open>
  C3 as stated fails on \<open>steepWindow\<close> at height 145 with the reference parameters: the raw
  target is above the ceiling, and the result \<open>0x1e0fffff\<close> does not decode to the ceiling
  target \<open>2^236 - 1\<close>.
\<close>

theorem clamp_decodes_to_ceiling_counterexample:
  "kgwScan outsideHorizon steepWindow 145 VertcoinParams =
       Inr \<lparr>difficultyAverage = 2 ^ 236 - 2 ^ 216, actualRate = 1000000, targetRate = 21600,
            blocksScanned = 144\<rparr>
   \<and> PowLimit VertcoinParams
       < rawTarget \<lparr>difficultyAverage = 2 ^ 236 - 2 ^ 216, actualRate = 1000000,
           targetRate = 21600, blocksScanned = 144\<rparr>
   \<and> calcDiffAdjustKGW outsideHorizon steepWindow 145 VertcoinParams = Inr (0x1e0fffff, None)
   \<and> PowLimit VertcoinParams = 2 ^ 236 - 1
   \<and> CompactToBig 0x1e0fffff = 2 ^ 236 - 2 ^ 216
   \<and> CompactToBig 0x1e0fffff \<noteq> PowLimit VertcoinParams"
proof -
  have r: "PowLimit VertcoinParams
       < rawTarget \<lparr>difficultyAverage = 2 ^ 236 - 2 ^ 216, actualRate = 1000000,
           targetRate = 21600, blocksScanned = 144\<rparr>"
    unfolding steepWindow_raw PowLimit_Vertcoin by simp
  have d: "CompactToBig 0x1e0fffff \<noteq> PowLimit VertcoinParams"
    unfolding CompactToBig_ceiling PowLimit_Vertcoin by simp
  show ?thesis
    using r d steepWindow_scan steepWindow_result PowLimit_Vertcoin CompactToBig_ceiling
    by simp
qed

section \<open>The ceiling invariant\<close>

lemma clampTarget_le: "clampTarget p t \<le> PowLimit p"
  by (simp add: clampTarget_def)

lemma encoded_clamp_le:
  assumes "0 < PowLimit p"
  shows "CompactToBig (BigToCompact (clampTarget p t)) \<le> PowLimit p"
proof -
  have "CompactToBig (BigToCompact (clampTarget p t)) \<le> max (clampTarget p t) 0"
    by (rule decode_encode_le)
  also have "\<dots> \<le> PowLimit p"
    using assms clampTarget_le [of p t] by simp
  finally show ?thesis .
qed

text \<open>
  On the scan path the bound needs only a positive \<open>PowLimit\<close>; on the early return it
  needs the returned \<open>PowLimitBits\<close> to decode to at most \<open>PowLimit\<close>.
\<close>

lemma result_at_most_PowLimit_paths:
  assumes "0 < PowLimit p"
    and "144 \<le> sint (ht - 1) \<or> CompactToBig (PowLimitBits p) \<le> PowLimit p"
    and "calcDiffAdjustKGW outside headers ht p = Inr (c, e)"
  shows "CompactToBig c \<le> PowLimit p"
proof (cases "144 \<le> sint (ht - 1)")
  case True
  with assms(3) obtain s where "c = BigToCompact (clampTarget p (rawTarget s))"
    by (auto simp add: calc_scan split: sum.splits)
  with assms(1) show ?thesis by (simp add: encoded_clamp_le)
next
  case False
  with assms(3) have "c = PowLimitBits p"
    by (simp add: calcDiffAdjustKGW_def minBlocks_def)
  with False assms(2) show ?thesis by simp
qed

text \<open>
  C4: for every window, every height and every parameter set with a positive \<open>PowLimit\<close>
  and \<open>PowLimitBits\<close> its compact form, a compact value the calculator returns decodes to
  at most \<open>PowLimit\<close>. The re-encoding by \<open>BigToCompact\<close> never rounds a positive target
  up, so the clamp survives it.
\<close>

theorem result_at_most_PowLimit:
  assumes "0 < PowLimit p"
    and "PowLimitBits p = BigToCompact (PowLimit p)"
    and "calcDiffAdjustKGW outside headers ht p = Inr (c, e)"
  shows "CompactToBig c \<le> PowLimit p"
proof -
  have "CompactToBig (BigToCompact (PowLimit p)) \<le> max (PowLimit p) 0"
    by (rule decode_encode_le)
  with assms(1,2) have "CompactToBig (PowLimitBits p) \<le> PowLimit p"
    by simp
  then have "144 \<le> sint (ht - 1) \<or> CompactToBig (PowLimitBits p) \<le> PowLimit p"
    by simp
  with assms(1) show ?thesis
    using assms(3) by (rule result_at_most_PowLimit_paths)
qed

theorem result_at_most_PowLimit_witness:
  "0 < PowLimit VertcoinParams
   \<and> PowLimitBits VertcoinParams = BigToCompact (PowLimit VertcoinParams)
   \<and> calcDiffAdjustKGW outsideHorizon flatWindow 145 VertcoinParams = Inr (0x1c0ffff0, None)
   \<and> CompactToBig 0x1c0ffff0 \<le> PowLimit VertcoinParams"
proof -
  have p: "0 < PowLimit VertcoinParams"
    by (simp add: VertcoinParams_def)
  have b: "PowLimitBits VertcoinParams = BigToCompact (PowLimit VertcoinParams)"
    using BigToCompact_ceiling by (simp add: VertcoinParams_def)
  show ?thesis
    using p b flatWindow_result result_at_most_PowLimit [OF p b flatWindow_result]
    by simp
qed

section \<open>Windows that are too short\<close>

lemma kgwScan_short_window:
  assumes "144 \<le> sint (ht - 1)" and "length headers < 145"
  shows "kgwScan outside headers ht p = Inl IndexOutOfRange"
proof (cases "2 \<le> length headers")
  case False
  then have "headerAt headers (- 2) = Inl IndexOutOfRange"
    by (intro headerAt_out_of_range) simp
  then show ?thesis by (simp add: kgwScan_def)
next
  case True
  then have rd: "headerAt headers (- 2) = Inr (headers ! nat (int (length headers) + - 2))"
    by (intro headerAt_in_range) simp_all
  have "kgwLoop outside headers p cb 1 (sint (ht - 1)) (- 2) cb scan0 = Inl IndexOutOfRange" for cb
    using assms True by (intro kgwLoop_short_window) (simp_all add: scan0_def)
  with rd show ?thesis by (simp add: kgwScan_def)
qed

lemma kgwScan_extend:
  assumes "kgwScan outside headers ht p = Inr s"
  shows "kgwScan outside (older @ headers) ht p = Inr s"
proof -
  from assms obtain cb where rd: "headerAt headers (- 2) = Inr cb"
    and lp: "kgwLoop outside headers p cb 1 (sint (ht - 1)) (- 2) cb scan0 = Inr s"
    by (auto simp add: kgwScan_def split: sum.splits)
  from rd have "headerAt (older @ headers) (- 2) = Inr cb"
    by (rule headerAt_extend)
  moreover from lp have "kgwLoop outside (older @ headers) p cb 1 (sint (ht - 1)) (- 2) cb scan0 = Inr s"
    by (rule kgwLoop_extend)
  ultimately show ?thesis by (simp add: kgwScan_def)
qed

lemma calcDiffAdjustKGW_extend:
  assumes "calcDiffAdjustKGW outside headers ht p = Inr r"
  shows "calcDiffAdjustKGW outside (older @ headers) ht p = Inr r"
proof (cases "sint (ht - 1) < minBlocks")
  case True
  with assms show ?thesis by (simp add: calcDiffAdjustKGW_def)
next
  case False
  with assms obtain s where sc: "kgwScan outside headers ht p = Inr s"
    and r: "r = (BigToCompact (clampTarget p (rawTarget s)), None)"
    by (auto simp add: calcDiffAdjustKGW_def split: sum.splits)
  from sc have "kgwScan outside (older @ headers) ht p = Inr s"
    by (rule kgwScan_extend)
  with False r show ?thesis by (simp add: calcDiffAdjustKGW_def)
qed

text \<open>
  C8, as the code has it: the calculator never returns an error value. With
  \<open>height - 1 >= 144\<close> and fewer than 145 headers (fewer than the 144 samples every scan
  takes, plus the unread most recent header), the call does not return at all: it ends
  in the run-time panic of an index out of range. No scan is cut short: a result that is
  returned stays the same when older headers are put in front of the window.
\<close>

theorem short_window_panics:
  assumes "144 \<le> sint (ht - 1)" and "length headers < 145"
  shows "calcDiffAdjustKGW outside headers ht p = Inl IndexOutOfRange
         \<and> calcDiffAdjustKGW outside headers' ht' p' \<noteq> Inr (c, Some e)
         \<and> (calcDiffAdjustKGW outside headers' ht' p' = Inr r \<longrightarrow>
              calcDiffAdjustKGW outside (older @ headers') ht' p' = Inr r)"
proof -
  have "calcDiffAdjustKGW outside headers ht p = Inl IndexOutOfRange"
    using assms by (simp add: calc_scan kgwScan_short_window)
  moreover have "calcDiffAdjustKGW outside headers' ht' p' \<noteq> Inr (c, Some e)"
    by (simp add: calcDiffAdjustKGW_def split: sum.splits)
  ultimately show ?thesis by (simp add: calcDiffAdjustKGW_extend)
qed

theorem short_window_panics_witness:
  "144 \<le> sint (4200 - 1 :: 32 word)
   \<and> length (replicate 100 (mkHeader 0 0x1c0ffff0)) < 145
   \<and> calcDiffAdjustKGW insideHorizon (replicate 100 (mkHeader 0 0x1c0ffff0)) 4200 VertcoinParams
       = Inl IndexOutOfRange"
proof -
  have h: "144 \<le> sint (4200 - 1 :: 32 word)"
    by simp
  have l: "length (replicate 100 (mkHeader 0 0x1c0ffff0)) < 145"
    by simp
  show ?thesis
    using h l short_window_panics [OF h l, of insideHorizon VertcoinParams]
    by simp
qed

text \<open>
  C8 as stated fails on a window of two headers at height 4200: the second read of the
  scan is out of range and the call panics; no error value is returned.
\<close>

theorem insufficient_history_counterexample:
  "calcDiffAdjustKGW insideHorizon [mkHeader 0 0x1c0ffff0, mkHeader 150 0x1c0ffff0] 4200
     VertcoinParams = Inl IndexOutOfRange"
  by (simp add: calcDiffAdjustKGW_def kgwScan_def headerAt_def kgwLoop.simps sample_def Let_def
        minBlocks_def maxBlocks_def insideHorizon_def scan0_def)

section \<open>Windows that are long enough\<close>

lemma kgwScan_total:
  assumes "4034 \<le> length headers"
  shows "\<exists>s. kgwScan outside headers ht p = Inr s"
proof -
  from assms have rd: "headerAt headers (- 2) = Inr (headers ! nat (int (length headers) + - 2))"
    by (intro headerAt_in_range) simp_all
  have "\<exists>s. kgwLoop outside headers p cb 1 (sint (ht - 1)) (- 2) cb scan0 = Inr s" for cb
    using assms by (intro kgwLoop_total) simp_all
  with rd show ?thesis by (simp add: kgwScan_def)
qed

lemma kgwScan_prefix_irrelevant:
  assumes "4034 \<le> length headers"
  shows "kgwScan outside (older @ headers) ht p = kgwScan outside headers ht p"
proof -
  have rd: "headerAt (older @ headers) (- 2) = headerAt headers (- 2)"
    using assms by (intro headerAt_prefix_irrelevant) simp_all
  have "kgwLoop outside (older @ headers) p cb 1 ch (- 2) cb scan0
        = kgwLoop outside headers p cb 1 ch (- 2) cb scan0" for cb ch
    using assms by (intro kgwLoop_cong_headers headerAt_prefix_irrelevant) simp_all
  with rd show ?thesis
    by (simp add: kgwScan_def split: sum.splits)
qed

text \<open>
  C9: with at least 4034 headers in the window, no read of the calculator is out of
  range and the call returns a compact value with a nil error, at every height. The reads
  stay within the last 4034 headers: older headers in front of the window change nothing.
\<close>

theorem long_window_total:
  assumes "4034 \<le> length headers"
  shows "(\<exists>c. calcDiffAdjustKGW outside headers ht p = Inr (c, None))
         \<and> calcDiffAdjustKGW outside (older @ headers) ht p
             = calcDiffAdjustKGW outside headers ht p"
proof -
  from kgwScan_total [OF assms] obtain s where "kgwScan outside headers ht p = Inr s"
    by blast
  then have "\<exists>c. calcDiffAdjustKGW outside headers ht p = Inr (c, None)"
    by (simp add: calcDiffAdjustKGW_def)
  moreover have "calcDiffAdjustKGW outside (older @ headers) ht p
                 = calcDiffAdjustKGW outside headers ht p"
    by (simp add: calcDiffAdjustKGW_def kgwScan_prefix_irrelevant [OF assms])
  ultimately show ?thesis by simp
qed

theorem long_window_total_witness:
  "4034 \<le> length (replicate 4034 (mkHeader 0 0x1c0ffff0))
   \<and> (\<exists>c. calcDiffAdjustKGW insideHorizon (replicate 4034 (mkHeader 0 0x1c0ffff0)) 5000
             VertcoinParams = Inr (c, None))"
proof -
  have l: "4034 \<le> length (replicate 4034 (mkHeader 0 0x1c0ffff0))"
    by simp
  show ?thesis
    using l long_window_total [OF l, of insideHorizon 5000 VertcoinParams]
    by simp
qed

section \<open>The work estimator\<close>

lemma CalcWork_pos:
  assumes "0 < CompactToBig c"
  shows "CalcWork c = 2 ^ 256 div (CompactToBig c + 1)"
  using assms by (simp add: CalcWork_def Let_def bigDiv_def oneLsh256_def)

lemma CalcWork_nonpos:
  assumes "CompactToBig c \<le> 0"
  shows "CalcWork c = 0"
  using assms by (simp add: CalcWork_def Let_def)

lemma CalcWork_nonneg: "0 \<le> CalcWork c"
  by (cases "0 < CompactToBig c") (simp_all add: CalcWork_pos CalcWork_nonpos pos_imp_zdiv_nonneg_iff)

lemma div_strict_antitone:
  fixes N a b :: int
  assumes "0 < a" and "a < b" and "a * b \<le> N * (b - a)"
  shows "N div b < N div a"
proof -
  let ?q = "N div b"
  have b: "0 < b" using assms by simp
  have "b * ?q + N mod b = N" and "0 \<le> N mod b"
    using b by simp_all
  then have "b * ?q \<le> N"
    by linarith
  then have "?q * b \<le> N"
    by (simp add: mult.commute)
  then have "?q * b * a \<le> N * a"
    using assms(1) by (simp add: mult_right_mono)
  then have "(?q + 1) * a * b \<le> N * a + a * b"
    by (simp add: algebra_simps)
  also have "\<dots> \<le> N * a + N * (b - a)"
    using assms(3) by simp
  also have "\<dots> = N * b"
    by (simp add: algebra_simps)
  finally have "(?q + 1) * a \<le> N"
    using b by simp
  then have "((?q + 1) * a) div a \<le> N div a"
    using assms(1) by (intro zdiv_mono1) simp_all
  then have "?q + 1 \<le> N div a"
    using assms(1) by simp
  then show ?thesis by simp
qed

text \<open>
  C6, as the code has it: the work never increases when the decoded target increases, and
  it is 0 for a decoded target that is not positive. The decrease is strict when the
  targets are far enough apart for the integer quotients to differ, which holds when
  \<open>(t1 + 1) * (t2 + 1) \<le> 2^256 * (t2 - t1)\<close>.
\<close>

theorem work_antitone:
  "(0 < CompactToBig c1 \<and> CompactToBig c1 < CompactToBig c2 \<longrightarrow>
      CalcWork c2 \<le> CalcWork c1)
   \<and> (0 < CompactToBig c1 \<and> CompactToBig c1 < CompactToBig c2
        \<and> (CompactToBig c1 + 1) * (CompactToBig c2 + 1)
             \<le> 2 ^ 256 * (CompactToBig c2 - CompactToBig c1) \<longrightarrow>
      CalcWork c2 < CalcWork c1)
   \<and> (CompactToBig c \<le> 0 \<longrightarrow> CalcWork c = 0)"
proof (intro conjI impI)
  assume "0 < CompactToBig c1 \<and> CompactToBig c1 < CompactToBig c2"
  then show "CalcWork c2 \<le> CalcWork c1"
    by (simp add: CalcWork_pos zdiv_mono2)
next
  assume a: "0 < CompactToBig c1 \<and> CompactToBig c1 < CompactToBig c2
        \<and> (CompactToBig c1 + 1) * (CompactToBig c2 + 1)
             \<le> 2 ^ 256 * (CompactToBig c2 - CompactToBig c1)"
  then have "2 ^ 256 div (CompactToBig c2 + 1) < 2 ^ 256 div (CompactToBig c1 + 1)"
    by (intro div_strict_antitone) simp_all
  with a show "CalcWork c2 < CalcWork c1"
    by (simp add: CalcWork_pos)
next
  assume "CompactToBig c \<le> 0"
  then show "CalcWork c = 0" by (rule CalcWork_nonpos)
qed

lemma CompactToBig_negative: "CompactToBig 0x03800001 = - 1"
  by (simp add: CompactToBig_def)

theorem work_antitone_witness:
  "0 < CompactToBig 0x1c0ffff0
   \<and> CompactToBig 0x1c0ffff0 < CompactToBig 0x1e0fffff
   \<and> (CompactToBig 0x1c0ffff0 + 1) * (CompactToBig 0x1e0fffff + 1)
        \<le> 2 ^ 256 * (CompactToBig 0x1e0fffff - CompactToBig 0x1c0ffff0)
   \<and> CalcWork 0x1e0fffff \<le> CalcWork 0x1c0ffff0
   \<and> CalcWork 0x1e0fffff < CalcWork 0x1c0ffff0
   \<and> CompactToBig 0x03800001 \<le> 0
   \<and> CalcWork 0x03800001 = 0"
proof -
  have h: "0 < CompactToBig 0x1c0ffff0
     \<and> CompactToBig 0x1c0ffff0 < CompactToBig 0x1e0fffff
     \<and> (CompactToBig 0x1c0ffff0 + 1) * (CompactToBig 0x1e0fffff + 1)
          \<le> 2 ^ 256 * (CompactToBig 0x1e0fffff - CompactToBig 0x1c0ffff0)"
    unfolding CompactToBig_start CompactToBig_ceiling by simp
  have n: "CompactToBig 0x03800001 \<le> 0"
    unfolding CompactToBig_negative by simp
  show ?thesis
    using h n work_antitone [of "0x1c0ffff0" "0x1e0fffff" "0x03800001"]
    by blast
qed

text \<open>
  C6 as stated fails for the compact values \<open>0x207ffffe\<close> and \<open>0x207fffff\<close>: the decoded
  targets are positive and differ, and both have work 2.
\<close>

theorem work_strictly_antitone_counterexample:
  "0 < CompactToBig 0x207ffffe
   \<and> CompactToBig 0x207ffffe < CompactToBig 0x207fffff
   \<and> CalcWork 0x207ffffe = 2
   \<and> CalcWork 0x207fffff = 2"
  by (simp add: CalcWork_def CompactToBig_def bigDiv_def oneLsh256_def)

section \<open>The simulation driver\<close>

lemma bigDiv_pos: "0 < y \<Longrightarrow> bigDiv x y = x div y"
  by (simp add: bigDiv_def)

lemma timeToBlock_pos:
  assumes "0 < hashRate"
  shows "timeToBlock d hashRate = Inr (Int64 (CalcWork d div hashRate))"
  using assms by (simp add: timeToBlock_def bigDiv_pos)

lemma timeToBlock_zero: "timeToBlock d 0 = Inl DivisionByZero"
  by (simp add: timeToBlock_def)

lemma simStep_rows:
  assumes "0 < hashRate"
  shows "fst (simStep outside timeAdd hashRate st) =
           [\<lparr>rowHeight = height st + 1, rowDiff = diff st,
             rowTime = Int64 (CalcWork (diff st) div hashRate)\<rparr>]"
  by (simp add: simStep_def timeToBlock_pos [OF assms] Let_def
        split: list.splits sum.splits prod.splits option.splits)

lemma simulate_rows:
  assumes "0 < hashRate"
    and "r \<in> set (fst (simulate outside timeAdd hashRate n st))"
  shows "rowTime r = Int64 (CalcWork (rowDiff r) div hashRate)"
  using assms(2)
proof (induction n arbitrary: st)
  case 0
  then show ?case by simp
next
  case (Suc n)
  obtain rows res where step: "simStep outside timeAdd hashRate st = (rows, res)"
    by (cases "simStep outside timeAdd hashRate st")
  with simStep_rows [OF assms(1), of outside timeAdd st]
  have rows: "rows = [\<lparr>rowHeight = height st + 1, rowDiff = diff st,
                       rowTime = Int64 (CalcWork (diff st) div hashRate)\<rparr>]"
    by simp
  show ?case
  proof (cases res)
    case (Inl f)
    with Suc.prems step rows show ?thesis by simp
  next
    case (Inr st')
    obtain rows' res' where rest: "simulate outside timeAdd hashRate n st' = (rows', res')"
      by (cases "simulate outside timeAdd hashRate n st'")
    with Suc.prems step Inr have "r \<in> set rows \<or> r \<in> set rows'"
      by simp
    then show ?thesis
    proof
      assume "r \<in> set rows"
      with rows show ?thesis by simp
    next
      assume "r \<in> set rows'"
      with rest have "r \<in> set (fst (simulate outside timeAdd hashRate n st'))" by simp
      then show ?thesis by (rule Suc.IH)
    qed
  qed
qed

lemma simulate_one: "fst (simulate outside timeAdd hashRate (Suc 0) st)
    = fst (simStep outside timeAdd hashRate st)"
  by (simp split: prod.splits sum.splits)

lemma sint_Int64:
  assumes "0 \<le> x" and "x < 2 ^ 63"
  shows "sint (Int64 x) = x"
  using assms by (simp add: Int64_def signed_of_int signed_take_bit_int_eq_self)

text \<open>
  With a positive hash rate, the time of every row the driver prints is the quotient
  \<open>CalcWork(diff) / hashRate\<close> read by \<open>Int64()\<close>; it is the quotient itself when the
  quotient is below \<open>2^63\<close>.
\<close>

lemma reported_time_exact_when_it_fits:
  assumes "0 < hashRate"
    and "r \<in> set (fst (simulate outside timeAdd hashRate n st))"
    and "CalcWork (rowDiff r) div hashRate < 2 ^ 63"
  shows "sint (rowTime r) = CalcWork (rowDiff r) div hashRate"
proof -
  have t: "rowTime r = Int64 (CalcWork (rowDiff r) div hashRate)"
    using assms(1,2) by (rule simulate_rows)
  have "0 \<le> CalcWork (rowDiff r) div hashRate"
    using assms(1) CalcWork_nonneg [of "rowDiff r"] by (simp add: pos_imp_zdiv_nonneg_iff)
  with t assms(3) show ?thesis by (simp add: sint_Int64)
qed

lemma CalcWork_example: "CalcWork 0x1b012345 div 1000000000000 = 247"
  by (simp add: CalcWork_def CompactToBig_def bigDiv_def oneLsh256_def)

lemma CalcWork_target_one: "CalcWork 0x01010000 = 2 ^ 255"
  by (simp add: CalcWork_def CompactToBig_def bigDiv_def oneLsh256_def)

text \<open>
  C7: the code breaks the claim when the quotient does not fit in 64 bits. Run with hash
  rate 1 (GH/s), one block and the override difficulty \<open>0x01010000\<close> (target 1, work
  \<open>2^255\<close>), the driver computes the quotient \<open>2^255 div 10^9\<close> exactly and then narrows it
  with \<open>Int64()\<close>: whatever the window, the row reports 318325279877277044 seconds, the
  low 64 bits of the quotient, not the quotient.
\<close>

theorem reported_time_overflow:
  "fst (simulate outside timeAdd 1000000000 (Suc 0) (st\<lparr>diff := 0x01010000\<rparr>))
     = [\<lparr>rowHeight = height st + 1, rowDiff = 0x01010000, rowTime = 318325279877277044\<rparr>]
   \<and> CalcWork 0x01010000 div 1000000000
       = 57896044618658097711785492504343953926634992332820282019728792003956
   \<and> sint (318325279877277044 :: 64 word) \<noteq> CalcWork 0x01010000 div 1000000000"
proof -
  have q: "CalcWork 0x01010000 div 1000000000
       = 57896044618658097711785492504343953926634992332820282019728792003956"
    unfolding CalcWork_target_one by simp
  have r: "fst (simulate outside timeAdd 1000000000 (Suc 0) (st\<lparr>diff := 0x01010000\<rparr>))
     = [\<lparr>rowHeight = height st + 1, rowDiff = 0x01010000, rowTime = 318325279877277044\<rparr>]"
    unfolding simulate_one
    by (subst simStep_rows) (simp_all add: q Int64_def)
  have "sint (318325279877277044 :: 64 word) \<noteq> CalcWork 0x01010000 div 1000000000"
    unfolding q by simp
  with q r show ?thesis by simp
qed

section \<open>A zero hash rate\<close>

lemma simStep_zero: "simStep outside timeAdd 0 st = ([], Inl DivisionByZero)"
  by (simp add: simStep_def timeToBlock_zero)

text \<open>
  C10: with hash rate 0 the division of the driver's step panics, whatever the work is, so
  the step prints nothing and does not return; a step that returns on a non-negative hash
  rate has a positive one, and with a positive hash rate the division succeeds.
\<close>

theorem zero_hashrate_panics:
  "timeToBlock d 0 = Inl DivisionByZero
   \<and> simStep outside timeAdd 0 st = ([], Inl DivisionByZero)
   \<and> (0 \<le> hashRate \<and> snd (simStep outside timeAdd hashRate st) = Inr st' \<longrightarrow> 0 < hashRate)
   \<and> (0 < hashRate \<longrightarrow> timeToBlock d hashRate = Inr (Int64 (CalcWork d div hashRate)))"
proof (intro conjI impI)
  show "timeToBlock d 0 = Inl DivisionByZero" by (rule timeToBlock_zero)
  show "simStep outside timeAdd 0 st = ([], Inl DivisionByZero)" by (rule simStep_zero)
next
  assume a: "0 \<le> hashRate \<and> snd (simStep outside timeAdd hashRate st) = Inr st'"
  then have "hashRate \<noteq> 0" by (auto simp add: simStep_zero)
  with a show "0 < hashRate" by simp
next
  assume "0 < hashRate"
  then show "timeToBlock d hashRate = Inr (Int64 (CalcWork d div hashRate))"
    by (rule timeToBlock_pos)
qed

lemma driverStart_step:
  "simStep outsideHorizon addSeconds 1000000000000 driverStart =
     ([\<lparr>rowHeight = 145, rowDiff = 0x1b012345, rowTime = 247\<rparr>],
      Inr \<lparr>lastBlocks = flatWindow, bestHeader = mkHeader 21847 0x1b012345, height = 145,
           diff = 0x1c0ffff0, totalSeconds = 247\<rparr>)"
proof -
  have t: "timeToBlock 0x1b012345 1000000000000 = Inr 247"
    by (simp add: timeToBlock_pos CalcWork_example Int64_def)
  have nh: "\<lparr>Timestamp = addSeconds (Timestamp (mkHeader 21600 0x1c0ffff0)) 247,
                Bits = 0x1b012345\<rparr> = mkHeader 21847 0x1b012345"
    by (simp add: mkHeader_def addSeconds_def)
  have l: "last flatWindow = mkHeader 21847 0x1b012345"
    by (simp add: flatWindow_def)
  show ?thesis
    unfolding simStep_def driverStart_def
    by (simp add: t Let_def nh flatWindow_def [symmetric] flatWindow_result l)
qed

theorem zero_hashrate_panics_witness:
  "timeToBlock 0x1b012345 0 = Inl DivisionByZero
   \<and> simStep outsideHorizon addSeconds 0 driverStart = ([], Inl DivisionByZero)
   \<and> (0::int) \<le> 1000000000000
   \<and> snd (simStep outsideHorizon addSeconds 1000000000000 driverStart) =
       Inr \<lparr>lastBlocks = flatWindow, bestHeader = mkHeader 21847 0x1b012345, height = 145,
            diff = 0x1c0ffff0, totalSeconds = 247\<rparr>
   \<and> (0::int) < 1000000000000
   \<and> timeToBlock 0x1b012345 1000000000000
       = Inr (Int64 (CalcWork 0x1b012345 div 1000000000000))"
proof -
  have s: "snd (simStep outsideHorizon addSeconds 1000000000000 driverStart) =
       Inr \<lparr>lastBlocks = flatWindow, bestHeader = mkHeader 21847 0x1b012345, height = 145,
            diff = 0x1c0ffff0, totalSeconds = 247\<rparr>"
    by (simp add: driverStart_step)
  show ?thesis
    using s zero_hashrate_panics [of "0x1b012345" outsideHorizon addSeconds driverStart
        1000000000000
        "\<lparr>lastBlocks = flatWindow, bestHeader = mkHeader 21847 0x1b012345, height = 145,
            diff = 0x1c0ffff0, totalSeconds = 247\<rparr>"]
    by simp
qed

end
